theory Spec2Isabelle
  imports Main
begin

section \<open>The evaluation core of the runtime (src/runtime/runtime.ts)\<close>

text \<open>
  The file embeds the classes \<^verbatim>\<open>Database\<close> and \<^verbatim>\<open>Evaluation\<close> of
  \<^verbatim>\<open>runtime.ts\<close>. Objects live in an explicit store: an evaluation and a database are
  references into the world, because a database keeps the list of the evaluations it is
  registered with and an evaluation keeps the list of its databases. A JavaScript object
  used as a dictionary is a map over its own properties, read and written through
  \<open>obj_get\<close> and \<open>obj_set\<close>, which know the properties every object inherits from
  \<^verbatim>\<open>Object.prototype\<close>. Timing calls of the performance tracker and the field
  \<^verbatim>\<open>start\<close> of a work item are left out.

  The collaborators whose classes are not in the source enter in two ways. A block or an
  action is a parameter: any function that, given the indexes and the change set, says
  what it stages. A callback or an error reporter from outside is known by a number and
  its call is recorded; it is taken not to call back into the runtime. The change set
  and the indexes are modelled from the specification, each definition saying so.
\<close>

subsection \<open>Values\<close>

text \<open>The slots of a fact hold scalars. A number is held as the text that
  \<^verbatim>\<open>String\<close> gives for it, such as \<^verbatim>\<open>1\<close>, \<^verbatim>\<open>-0.5\<close>, \<^verbatim>\<open>1e+21\<close> or
  \<^verbatim>\<open>Infinity\<close>: that text tells the numbers apart, and the runtime does no arithmetic
  on the values it is handed.\<close>

datatype jsval = Undefined | Null | Boolean bool | Num string | Str string

datatype error = TypeError | Error string

type_synonym evalRef = nat
type_synonym dbRef = nat

text \<open>\<^verbatim>\<open>xs[i]\<close> on an array: reading past the end gives \<^verbatim>\<open>undefined\<close>.\<close>

definition nth_js :: "jsval list \<Rightarrow> nat \<Rightarrow> jsval" where
  "nth_js xs i = (if i < length xs then xs ! i else Undefined)"

text \<open>The numbers the runtime makes itself are the multiplicity of a change and the
  number of a round: small integers, whose text is their digits, with a sign when they
  are negative.\<close>

function decimal :: "nat \<Rightarrow> string" where
  "decimal n = (if n < 10 then [''0123456789'' ! n]
                else decimal (n div 10) @ [''0123456789'' ! (n mod 10)])"
  by pat_completeness auto
termination
  by (relation "measure id") auto

declare decimal.simps [simp del]

definition num :: "int \<Rightarrow> jsval" where
  "num i = Num (if i < 0 then CHR ''-'' # decimal (nat (- i)) else decimal (nat i))"

text \<open>The property key a value is coerced to when it indexes an object (\<^verbatim>\<open>String(x)\<close>).\<close>

fun prop_key :: "jsval \<Rightarrow> string" where
  "prop_key Undefined = ''undefined''"
| "prop_key Null = ''null''"
| "prop_key (Boolean b) = (if b then ''true'' else ''false'')"
| "prop_key (Num s) = s"
| "prop_key (Str s) = s"

subsection \<open>Objects used as dictionaries\<close>

text \<open>\<^verbatim>\<open>tagsCache\<close>, \<^verbatim>\<open>waitingFor\<close> and \<^verbatim>\<open>nameToDatabase\<close> are plain objects, made by
  \<^verbatim>\<open>{}\<close>. Reading \<^verbatim>\<open>obj[key]\<close> gives the object's own property, and without one the
  property that \<^verbatim>\<open>Object.prototype\<close> holds under that name: a function, or under
  \<^verbatim>\<open>__proto__\<close> the prototype itself. Such a value is neither \<^verbatim>\<open>undefined\<close> nor
  false in a condition.\<close>

definition inheritedNames :: "string list" where
  "inheritedNames =
     [''constructor'', ''hasOwnProperty'', ''isPrototypeOf'', ''propertyIsEnumerable'',
      ''toLocaleString'', ''toString'', ''valueOf'', ''__proto__'',
      ''__defineGetter__'', ''__defineSetter__'', ''__lookupGetter__'', ''__lookupSetter__'']"

datatype 'a property = Own 'a | Inherited | Missing

definition obj_get :: "(string \<rightharpoonup> 'a) \<Rightarrow> string \<Rightarrow> 'a property" where
  "obj_get obj key =
     (case obj key of
        Some v \<Rightarrow> Own v
      | None \<Rightarrow> if key \<in> set inheritedNames then Inherited else Missing)"

text \<open>\<^verbatim>\<open>obj[key] = v\<close> for a value that is not an object. The assignment makes or
  updates an own property, except under \<^verbatim>\<open>__proto__\<close>, where without an own property it
  reaches the setter of the prototype, which ignores such a value.\<close>

definition obj_set :: "(string \<rightharpoonup> 'a) \<Rightarrow> string \<Rightarrow> 'a \<Rightarrow> (string \<rightharpoonup> 'a)" where
  "obj_set obj key v = (if key = ''__proto__'' \<and> obj key = None then obj else obj(key \<mapsto> v))"

text \<open>\<^verbatim>\<open>obj[key]\<close> as a condition, for a dictionary of booleans.\<close>

definition truthy :: "bool property \<Rightarrow> bool" where
  "truthy p = (case p of Own b \<Rightarrow> b | Inherited \<Rightarrow> True | Missing \<Rightarrow> False)"

subsection \<open>The triple index, the multi-index and the change set\<close>

text \<open>A quad is \<open>(e, a, v, n)\<close>.\<close>

type_synonym quad = "jsval \<times> jsval \<times> jsval \<times> jsval"
type_synonym tripleIndex = "quad list"

text \<open>What a collaborator sees of the multi-index: the registered names with the contents
  of their indexes.\<close>

type_synonym indexView = "(string \<times> tripleIndex) list"

datatype entry = Entry (edb: string) (ee: jsval) (ea: jsval) (ev: jsval) (en: jsval)
  (eround: nat) (emult: int)

record changes =
  round :: nat
  changed :: bool
  staged :: "entry list"
  committed :: "entry list"

subsection \<open>Blocks, actions and work items\<close>

text \<open>What a block or an action asks of the change set it is handed: a sequence of
  \<^verbatim>\<open>store\<close> and \<^verbatim>\<open>unstore\<close> calls.\<close>

datatype stage =
  Store string jsval jsval jsval jsval
| Unstore string jsval jsval jsval jsval

text \<open>What the activation scan hands a checker as \<open>tags\<close>: the values a tag lookup
  has returned, or the value that \<^verbatim>\<open>Object.prototype\<close> holds under a name.\<close>

datatype tagsArg = Tags "jsval list" | InheritedValue string

text \<open>The block contract. \<open>remote\<close> is \<^verbatim>\<open>block instanceof RemoteBlock\<close>;
  \<open>check\<close> is \<^verbatim>\<open>block.checker.check(index, change, tags, e, a, v)\<close>.\<close>

record block =
  bid :: string
  dormant :: bool
  remote :: bool
  check :: "indexView \<Rightarrow> jsval \<Rightarrow> tagsArg \<Rightarrow> jsval \<Rightarrow> jsval \<Rightarrow> jsval \<Rightarrow> bool"
  execute :: "indexView \<Rightarrow> changes \<Rightarrow> stage list"

text \<open>\<^verbatim>\<open>action.execute(multiIndex, [], changes)\<close>.\<close>

type_synonym action = "indexView \<Rightarrow> changes \<Rightarrow> stage list"

datatype queuedType = QCommit | QActions | QChanges

text \<open>A callback is either one supplied from outside, known by a number, or the closure
  \<^verbatim>\<open>finished\<close> of \<^verbatim>\<open>processQueue\<close>, which holds the callback of the item it was
  made for.\<close>

datatype callback = UserCallback nat | Finished "callback option"

record queuedEvaluation =
  qtype :: queuedType
  qcommit :: "jsval list option"
  qactions :: "action list option"
  qchanges :: "changes option"
  qcallback :: "callback option"
  waitingFor :: "(string \<rightharpoonup> bool) option"
  waitingCount :: "int option"

subsection \<open>Databases, evaluations and the world\<close>

record database =
  blocks :: "block list"
  index :: tripleIndex
  evaluations :: "evalRef list"
  nonExecuting :: bool

text \<open>\<open>multiIndex\<close> maps a registered name to the index registered under it; an index is
  known by the database that owns it. \<open>databaseNames\<close> is keyed by \<^verbatim>\<open>db.id\<close>, which the
  constructor makes unique for every database.\<close>

record evaluation =
  queued :: bool
  currentEvaluation :: "queuedEvaluation option"
  evaluationQueue :: "queuedEvaluation list"
  multiIndex :: "(string \<times> dbRef) list"
  databases :: "dbRef list"
  errorReporter :: "nat option"
  databaseNames :: "dbRef \<rightharpoonup> string"
  nameToDatabase :: "string \<rightharpoonup> dbRef"

text \<open>What a run leaves behind, in order: a call of the error reporter or of
  \<^verbatim>\<open>console.error\<close>, the round a call of \<^verbatim>\<open>nextRound\<close> has reached, the delta a call
  of \<^verbatim>\<open>commit\<close> has returned, a call of the \<^verbatim>\<open>onFixpoint\<close> hook of a database, and a
  call of a callback from outside with the change set it is given.\<close>

datatype event =
  Reported nat string string
| ConsoleError string string
| RoundStarted evalRef nat
| Committed evalRef "jsval list"
| OnFixpointInvoked dbRef evalRef
| CallbackInvoked nat changes

text \<open>\<open>ticks\<close> are the closures handed to \<^verbatim>\<open>nextTick\<close> that have not run yet, oldest
  first; each is the body of \<^verbatim>\<open>processQueue\<close> of one evaluation.\<close>

record world =
  evals :: "evalRef \<Rightarrow> evaluation"
  dbs :: "dbRef \<Rightarrow> database"
  ticks :: "evalRef list"
  events :: "event list"

subsection \<open>Database.register and Evaluation.registerDatabase\<close>

definition register :: "evalRef \<Rightarrow> database \<Rightarrow> database" where
  "register evaluation db =
     (if evaluation \<notin> set (evaluations db)
      then db\<lparr>evaluations := evaluations db @ [evaluation]\<rparr>
      else db)"

text \<open>Modelled from the spec: \<^verbatim>\<open>MultiIndex.register(name, index)\<close>, whose class is not
  in the source. The name is bound to the index, as a property assignment does.\<close>

definition mi_register :: "string \<Rightarrow> dbRef \<Rightarrow> (string \<times> dbRef) list \<Rightarrow> (string \<times> dbRef) list" where
  "mi_register name ix mi =
     (if name \<in> fst ` set mi
      then map (\<lambda>(k, v). if k = name then (k, ix) else (k, v)) mi
      else mi @ [(name, ix)])"

text \<open>\<^verbatim>\<open>analyze\<close> of the base class does nothing, so the loop over the databases has
  no effect. The guard \<^verbatim>\<open>if(this.nameToDatabase[name])\<close> holds for a registered name,
  a database being an object, and for a name every object inherits.\<close>

definition registerDatabase :: "evalRef \<Rightarrow> string \<Rightarrow> dbRef \<Rightarrow> world \<Rightarrow> world \<times> error option" where
  "registerDatabase this name db w =
     (let self = evals w this in
      if obj_get (nameToDatabase self) name \<noteq> Missing
      then (w, Some (Error (''Trying to register a database name that is already registered: '' @ name)))
      else
        let self' = self\<lparr>databases := databases self @ [db],
                         databaseNames := (databaseNames self)(db \<mapsto> name),
                         nameToDatabase := (nameToDatabase self)(name \<mapsto> db),
                         multiIndex := mi_register name db (multiIndex self)\<rparr>
        in (w\<lparr>evals := (evals w)(this := self'),
               dbs := (dbs w)(db := register this (dbs w db))\<rparr>, None))"

text \<open>The constructors: a fresh evaluation, a fresh database, and a world in which
  nothing has happened yet.\<close>

definition newEvaluation :: evaluation where
  "newEvaluation = \<lparr>queued = False, currentEvaluation = None, evaluationQueue = [],
     multiIndex = [], databases = [], errorReporter = None,
     databaseNames = Map.empty, nameToDatabase = Map.empty\<rparr>"

definition newDatabase :: database where
  "newDatabase = \<lparr>blocks = [], index = [], evaluations = [], nonExecuting = False\<rparr>"

definition newWorld :: world where
  "newWorld = \<lparr>evals = (\<lambda>_. newEvaluation), dbs = (\<lambda>_. newDatabase), ticks = [], events = []\<rparr>"

subsection \<open>The change set\<close>

text \<open>Modelled from the spec: the class \<^verbatim>\<open>Changes\<close> is not in the source. A new
  change set is at round 0 with nothing staged.\<close>

definition newChanges :: changes where
  "newChanges = \<lparr>round = 0, changed = False, staged = [], committed = []\<rparr>"

text \<open>Modelled from the spec: \<^verbatim>\<open>store\<close> and \<^verbatim>\<open>unstore\<close> stage a \<open>+1\<close> or a
  \<open>-1\<close> for the named database, tagged with the current round.\<close>

fun stage1 :: "changes \<Rightarrow> stage \<Rightarrow> changes" where
  "stage1 c (Store db e a v n) = c\<lparr>staged := staged c @ [Entry db e a v n (round c) 1]\<rparr>"
| "stage1 c (Unstore db e a v n) = c\<lparr>staged := staged c @ [Entry db e a v n (round c) (- 1)]\<rparr>"

definition stageAll :: "stage list \<Rightarrow> changes \<Rightarrow> changes" where
  "stageAll ss c = foldl stage1 c ss"

text \<open>Modelled from the spec: \<^verbatim>\<open>nextRound()\<close> increments \<open>round\<close> and clears
  \<open>changed\<close>.\<close>

definition nextRound :: "changes \<Rightarrow> changes" where
  "nextRound c = c\<lparr>round := round c + 1, changed := False\<rparr>"

text \<open>Modelled from the spec: \<^verbatim>\<open>mergeRound(other)\<close> folds the pending entries of
  another change set into this one without committing.\<close>

definition mergeRound :: "changes \<Rightarrow> changes \<Rightarrow> changes" where
  "mergeRound other c = c\<lparr>staged := staged c @ staged other\<rparr>"

text \<open>Modelled from the spec: the triple index holds each quad once; a triple is present
  while some provenance node asserts it.\<close>

definition present :: "tripleIndex \<Rightarrow> jsval \<Rightarrow> jsval \<Rightarrow> jsval \<Rightarrow> bool" where
  "present ix e a v = list_ex (\<lambda>(e', a', v', n'). e' = e \<and> a' = a \<and> v' = v) ix"

definition ti_insert :: "quad \<Rightarrow> tripleIndex \<Rightarrow> tripleIndex" where
  "ti_insert q ix = (if q \<in> set ix then ix else ix @ [q])"

definition ti_remove :: "quad \<Rightarrow> tripleIndex \<Rightarrow> tripleIndex" where
  "ti_remove q ix = removeAll q ix"

text \<open>Modelled from the spec: the net of the staged entries. Entries for the same
  database, triple and node add up; a fact whose entries cancel drops out.\<close>

definition sameFact :: "entry \<Rightarrow> entry \<Rightarrow> bool" where
  "sameFact x y = (edb x = edb y \<and> ee x = ee y \<and> ea x = ea y \<and> ev x = ev y \<and> en x = en y)"

definition total :: "entry list \<Rightarrow> entry \<Rightarrow> int" where
  "total xs x = sum_list (map emult (filter (sameFact x) xs))"

fun firsts :: "entry list \<Rightarrow> entry list" where
  "firsts [] = []"
| "firsts (x # xs) = x # filter (\<lambda>y. \<not> sameFact x y) (firsts xs)"

definition net :: "entry list \<Rightarrow> entry list" where
  "net xs = map (\<lambda>x. Entry (edb x) (ee x) (ea x) (ev x) (en x) (eround x) (sgn (total xs x)))
              (filter (\<lambda>x. total xs x \<noteq> 0) (firsts xs))"

text \<open>Modelled from the spec: one net entry applied to the index registered under its
  database name. The entry joins the delta when the triple became present or absent. An
  entry for a name with no registered index is dropped.\<close>

definition applyEntry :: "(string \<times> dbRef) list \<Rightarrow> (dbRef \<Rightarrow> database) \<times> entry list \<Rightarrow> entry
    \<Rightarrow> (dbRef \<Rightarrow> database) \<times> entry list" where
  "applyEntry mi acc x =
     (case map_of mi (edb x) of
        None \<Rightarrow> acc
      | Some d \<Rightarrow>
          let store = fst acc; delta = snd acc; ix = index (store d);
              q = (ee x, ea x, ev x, en x);
              ix' = (if 0 < emult x then ti_insert q ix else ti_remove q ix)
          in (store(d := (store d)\<lparr>index := ix'\<rparr>),
              if present ix (ee x) (ea x) (ev x) \<noteq> present ix' (ee x) (ea x) (ev x)
              then delta @ [x] else delta))"

text \<open>The six-wide layout of a committed delta: \<open>[change, e, a, v, n, round, ...]\<close>.\<close>

definition flatten :: "entry list \<Rightarrow> jsval list" where
  "flatten xs = concat (map (\<lambda>x. [num (emult x), ee x, ea x, ev x, en x, num (int (eround x))]) xs)"

text \<open>Modelled from the spec: \<^verbatim>\<open>commit()\<close> applies the staged entries to their
  indexes, sets \<open>changed\<close> when the net delta is not empty, and returns the delta. The
  result is the delta, the change set after the call, and the databases after the call.\<close>

definition changes_commit :: "(string \<times> dbRef) list \<Rightarrow> changes \<Rightarrow> (dbRef \<Rightarrow> database)
    \<Rightarrow> jsval list \<times> changes \<times> (dbRef \<Rightarrow> database)" where
  "changes_commit mi c store =
     (let r = foldl (applyEntry mi) (store, []) (net (staged c)); delta = snd r
      in (flatten delta,
          c\<lparr>staged := [], changed := (delta \<noteq> []), committed := committed c @ delta\<rparr>,
          fst r))"

text \<open>Modelled from the spec: \<^verbatim>\<open>toCommitted(scopes)\<close> is the committed delta of the
  databases named in \<open>scopes\<close>, in the six-wide layout.\<close>

definition toCommitted :: "string list \<Rightarrow> changes \<Rightarrow> jsval list" where
  "toCommitted scopes c = flatten (filter (\<lambda>x. edb x \<in> set scopes) (committed c))"

subsection \<open>Evaluation.blocksFromCommit\<close>

definition viewOf :: "world \<Rightarrow> evaluation \<Rightarrow> indexView" where
  "viewOf w self = map (\<lambda>(name, d). (name, index (dbs w d))) (multiIndex self)"

text \<open>Modelled from the spec: \<^verbatim>\<open>dangerousMergeLookup(e, a, undefined)\<close> gives the values
  held for \<open>(e, a)\<close> in the registered indexes. Where \<^verbatim>\<open>blocksFromCommit\<close> calls it the
  change set has just been committed or is new, so nothing is pending.\<close>

definition dangerousMergeLookup :: "indexView \<Rightarrow> jsval \<Rightarrow> jsval \<Rightarrow> jsval list" where
  "dangerousMergeLookup view e a =
     remdups (concat (map (\<lambda>(name, ix). map (\<lambda>(e', a', v', n'). v')
                                             (filter (\<lambda>(e', a', v', n'). e' = e \<and> a' = a) ix)) view))"

text \<open>The calls the scan makes to its collaborators, in order: a tag lookup for an
  entity, and a check of a block against the change at an offset of the commit.\<close>

datatype probe = Lookup jsval | Check string nat

type_synonym tagsCache = "string \<rightharpoonup> jsval list"

text \<open>The innermost loop, \<^verbatim>\<open>for(let ix = 0, len = commit.length; ix < len; ix += 6)\<close>.
  The result says whether the loop left through \<^verbatim>\<open>break\<close>, after
  \<^verbatim>\<open>blocks.push(block)\<close>. \<^verbatim>\<open>tagsCache[e]\<close> is \<^verbatim>\<open>undefined\<close> only when the cache has
  no entry for the key of \<open>e\<close> and the key is not an inherited name; only then is the
  lookup made and its result stored. Under an inherited name the checker is handed what
  the prototype holds.\<close>

function scanCommit :: "indexView \<Rightarrow> block \<Rightarrow> jsval list \<Rightarrow> nat \<Rightarrow> tagsCache \<times> probe list
    \<Rightarrow> bool \<times> tagsCache \<times> probe list" where
  "scanCommit view block commit ix st =
     (if ix < length commit then
        let change = nth_js commit ix;
            e = nth_js commit (ix + 1);
            a = nth_js commit (ix + 2);
            v = nth_js commit (ix + 3);
            tagsCache = fst st; log = snd st;
            looked = (case obj_get tagsCache (prop_key e) of
                        Own tags \<Rightarrow> (Tags tags, tagsCache, log)
                      | Inherited \<Rightarrow> (InheritedValue (prop_key e), tagsCache, log)
                      | Missing \<Rightarrow>
                          let tags = dangerousMergeLookup view e (Str ''tag'')
                          in (Tags tags, tagsCache(prop_key e \<mapsto> tags), log @ [Lookup e]));
            tags = fst looked; st' = (fst (snd looked), snd (snd looked) @ [Check (bid block) ix])
        in if check block view change tags e a v
           then (True, st')
           else scanCommit view block commit (ix + 6) st'
      else (False, st))"
  by pat_completeness auto
termination
  by (relation "measure (\<lambda>(view, block, commit, ix, st). length commit - ix)") auto

declare scanCommit.simps [simp del]

text \<open>The loop over the blocks of one database and the loop over the databases. The
  state is the list \<open>blocks\<close> being built, the tag cache and the calls made so far.\<close>

type_synonym scanState = "block list \<times> tagsCache \<times> probe list"

fun scanBlocks :: "indexView \<Rightarrow> jsval list \<Rightarrow> block list \<Rightarrow> scanState \<Rightarrow> scanState" where
  "scanBlocks view commit [] st = st"
| "scanBlocks view commit (block # rest) st =
     (if dormant block then scanBlocks view commit rest st
      else
        let r = scanCommit view block commit 0 (snd st)
        in scanBlocks view commit rest
             (if fst r then fst st @ [block] else fst st, snd r))"

fun scanDatabases :: "(dbRef \<Rightarrow> database) \<Rightarrow> indexView \<Rightarrow> jsval list \<Rightarrow> dbRef list \<Rightarrow> scanState
    \<Rightarrow> scanState" where
  "scanDatabases store view commit [] st = st"
| "scanDatabases store view commit (d # ds) st =
     (if nonExecuting (store d) then scanDatabases store view commit ds st
      else scanDatabases store view commit ds (scanBlocks view commit (blocks (store d)) st))"

definition blocksFromCommit_probed :: "world \<Rightarrow> evalRef \<Rightarrow> jsval list \<Rightarrow> scanState" where
  "blocksFromCommit_probed w this commit =
     scanDatabases (dbs w) (viewOf w (evals w this)) commit (databases (evals w this))
       ([], Map.empty, [])"

definition blocksFromCommit :: "world \<Rightarrow> evalRef \<Rightarrow> jsval list \<Rightarrow> block list" where
  "blocksFromCommit w this commit = fst (blocksFromCommit_probed w this commit)"

text \<open>\<^verbatim>\<open>getAllBlocks()\<close>.\<close>

definition getAllBlocks :: "world \<Rightarrow> evalRef \<Rightarrow> block list" where
  "getAllBlocks w this =
     concat (map (\<lambda>d. filter (\<lambda>b. \<not> dormant b) (blocks (dbs w d)))
                 (filter (\<lambda>d. \<not> nonExecuting (dbs w d)) (databases (evals w this))))"

subsection \<open>Reporting, queueing and the fixpoint hook\<close>

definition MAX_ROUNDS :: nat where
  "MAX_ROUNDS = 300"

definition emit :: "event \<Rightarrow> world \<Rightarrow> world" where
  "emit e w = w\<lparr>events := events w @ [e]\<rparr>"

definition updEval :: "evalRef \<Rightarrow> (evaluation \<Rightarrow> evaluation) \<Rightarrow> world \<Rightarrow> world" where
  "updEval this f w = w\<lparr>evals := (evals w)(this := f (evals w this))\<rparr>"

definition setCurrent :: "evalRef \<Rightarrow> queuedEvaluation option \<Rightarrow> world \<Rightarrow> world" where
  "setCurrent this item w = updEval this (\<lambda>self. self\<lparr>currentEvaluation := item\<rparr>) w"

text \<open>\<^verbatim>\<open>Evaluation.error(kind, error)\<close>: to the error reporter when there is one, to
  the console otherwise.\<close>

definition evaluation_error :: "evalRef \<Rightarrow> string \<Rightarrow> string \<Rightarrow> world \<Rightarrow> world" where
  "evaluation_error this kind err w =
     (case errorReporter (evals w this) of
        Some reporter \<Rightarrow> emit (Reported reporter kind err) w
      | None \<Rightarrow> emit (ConsoleError (kind @ '':'') err) w)"

text \<open>\<^verbatim>\<open>processQueue()\<close> hands its body to \<^verbatim>\<open>nextTick\<close>; the body is
  \<open>processQueueTick\<close> below.\<close>

definition processQueue :: "evalRef \<Rightarrow> world \<Rightarrow> world" where
  "processQueue this w = w\<lparr>ticks := ticks w @ [this]\<rparr>"

definition queue :: "evalRef \<Rightarrow> queuedEvaluation \<Rightarrow> world \<Rightarrow> world" where
  "queue this evaluation w =
     (let w1 = (if \<not> queued (evals w this) \<and> currentEvaluation (evals w this) = None
                then processQueue this w else w)
      in updEval this
           (\<lambda>self. self\<lparr>evaluationQueue := evaluationQueue self @
                       [evaluation\<lparr>waitingFor := Some Map.empty, waitingCount := Some 0\<rparr>]\<rparr>) w1)"

text \<open>The item as \<^verbatim>\<open>queue\<close> leaves it in the queue.\<close>

definition enqueued :: "queuedEvaluation \<Rightarrow> queuedEvaluation" where
  "enqueued item = item\<lparr>waitingFor := Some Map.empty, waitingCount := Some 0\<rparr>"

definition databaseToName :: "evaluation \<Rightarrow> dbRef \<Rightarrow> string option" where
  "databaseToName self db = databaseNames self db"

text \<open>The object literal \<^verbatim>\<open>{type: QueuedType.commit, commit}\<close>.\<close>

definition commitItem :: "jsval list \<Rightarrow> queuedEvaluation" where
  "commitItem c = \<lparr>qtype = QCommit, qcommit = Some c, qactions = None, qchanges = None,
     qcallback = None, waitingFor = None, waitingCount = None\<rparr>"

text \<open>The key of the object literal \<^verbatim>\<open>{[name]: true}\<close>: a database without a name
  in the evaluation gives the key \<^verbatim>\<open>undefined\<close>.\<close>

definition scopeKey :: "string option \<Rightarrow> string" where
  "scopeKey name = (case name of Some n \<Rightarrow> n | None \<Rightarrow> ''undefined'')"

text \<open>\<^verbatim>\<open>Database.onFixpoint(currentEvaluation, changes)\<close>.\<close>

definition onFixpoint :: "dbRef \<Rightarrow> evalRef \<Rightarrow> changes \<Rightarrow> world \<Rightarrow> world" where
  "onFixpoint db current changes w =
     (let name = databaseToName (evals w current) db;
          commit = toCommitted [scopeKey name] changes
      in if length commit = 0 then w
         else foldl (\<lambda>w' evaluation.
                       if evaluation \<noteq> current then queue evaluation (commitItem commit) w' else w')
                w (evaluations (dbs w db)))"

subsection \<open>The fixpoint driver\<close>

text \<open>The loop over the blocks of one round. \<^verbatim>\<open>evaluation.waitingFor[block.id] = true\<close>
  throws a TypeError when the work item has no \<open>waitingFor\<close> map.\<close>

fun blockPass :: "indexView \<Rightarrow> block list \<Rightarrow> queuedEvaluation \<Rightarrow> changes
    \<Rightarrow> error option \<times> queuedEvaluation \<times> changes" where
  "blockPass view [] evaluation changes = (None, evaluation, changes)"
| "blockPass view (block # rest) evaluation changes =
     (if remote block then
        (case waitingFor evaluation of
           None \<Rightarrow> (Some TypeError, evaluation, changes)
         | Some m \<Rightarrow>
             blockPass view rest
               (evaluation\<lparr>waitingFor := Some (obj_set m (bid block) True),
                            waitingCount := map_option (\<lambda>n. n + 1) (waitingCount evaluation)\<rparr>)
               (stageAll (execute block view changes) changes))
      else blockPass view rest evaluation (stageAll (execute block view changes) changes))"

text \<open>A callback called with the change set. A callback from outside is only recorded;
  \<^verbatim>\<open>finished\<close> schedules the next drain or clears \<open>queued\<close>, then calls the callback
  of its item.\<close>

fun invokeCallback :: "evalRef \<Rightarrow> callback \<Rightarrow> changes \<Rightarrow> world \<Rightarrow> world" where
  "invokeCallback this (UserCallback k) changes w = emit (CallbackInvoked k changes) w"
| "invokeCallback this (Finished inner) changes w =
     (let w1 = (if evaluationQueue (evals w this) \<noteq> [] then processQueue this w
                else updEval this (\<lambda>self. self\<lparr>queued := False\<rparr>) w)
      in case inner of None \<Rightarrow> w1 | Some cb \<Rightarrow> invokeCallback this cb changes w1)"

text \<open>The \<^verbatim>\<open>else\<close> branch of \<^verbatim>\<open>_fixpointRound\<close>.\<close>

definition finishFixpoint :: "evalRef \<Rightarrow> queuedEvaluation \<Rightarrow> changes \<Rightarrow> world \<Rightarrow> world" where
  "finishFixpoint this evaluation changes w =
     (let w1 = (if MAX_ROUNDS \<le> round changes
                then evaluation_error this ''Fixpoint Error'' ''Evaluation failed to fixpoint'' w
                else w);
          w2 = foldl (\<lambda>w' database. onFixpoint database this changes
                                       (emit (OnFixpointInvoked database this) w'))
                 w1 (databases (evals w1 this));
          w3 = (case qcallback evaluation of
                  Some cb \<Rightarrow> invokeCallback this cb changes w2
                | None \<Rightarrow> w2)
      in setCurrent this None w3)"

text \<open>No block and no commit changes the round of a change set.\<close>

lemma round_stage1: "round (stage1 c s) = round c"
  by (cases s) simp_all

lemma round_stageAll: "round (stageAll ss c) = round c"
  unfolding stageAll_def by (induction ss arbitrary: c) (simp_all add: round_stage1)

lemma round_blockPass: "round (snd (snd (blockPass view bs evaluation c))) = round c"
  by (induction view bs evaluation c rule: blockPass.induct)
     (simp_all add: round_stageAll split: option.splits)

lemma round_changes_commit: "round (fst (snd (changes_commit mi c store))) = round c"
  by (simp add: changes_commit_def Let_def)

text \<open>\<^verbatim>\<open>_fixpointRound(evaluation, blocks)\<close>. Both callers pass the object held in
  \<open>currentEvaluation\<close>, so what the function does to \<open>evaluation\<close> it does to the slot:
  the item is written back to the slot wherever the function returns without finishing.
  The first component of the result is the world when the call returns or throws, the
  second the error thrown, if any.\<close>

function fixpointRound :: "evalRef \<Rightarrow> queuedEvaluation \<Rightarrow> block list \<Rightarrow> world \<Rightarrow> world \<times> error option" where
  "fixpointRound this evaluation blockSet w =
     (case qchanges evaluation of
        None \<Rightarrow> (setCurrent this (Some (evaluation\<lparr>waitingCount := Some 0\<rparr>)) w, Some TypeError)
      | Some changes \<Rightarrow>
          if changed changes \<and> round changes < MAX_ROUNDS then
            let changes1 = nextRound changes;
                w1 = emit (RoundStarted this (round changes1)) w;
                pass = blockPass (viewOf w1 (evals w1 this)) blockSet
                         (evaluation\<lparr>waitingCount := Some 0\<rparr>) changes1;
                evaluation1 = fst (snd pass);
                changes2 = snd (snd pass)
            in (case fst pass of
                  Some err \<Rightarrow>
                    (setCurrent this (Some (evaluation1\<lparr>qchanges := Some changes2\<rparr>)) w1, Some err)
                | None \<Rightarrow>
                    if waitingCount evaluation1 = Some 0 then
                      let c = changes_commit (multiIndex (evals w1 this)) changes2 (dbs w1);
                          w2 = emit (Committed this (fst c)) (w1\<lparr>dbs := snd (snd c)\<rparr>)
                      in fixpointRound this (evaluation1\<lparr>qchanges := Some (fst (snd c))\<rparr>)
                           (blocksFromCommit w2 this (fst c)) w2
                    else
                      (setCurrent this (Some (evaluation1\<lparr>qchanges := Some changes2\<rparr>)) w1, None))
          else (finishFixpoint this (evaluation\<lparr>waitingCount := Some 0\<rparr>) changes w, None))"
  by pat_completeness auto

termination
  by (relation "measure (\<lambda>(this, evaluation, blockSet, w).
        case qchanges evaluation of None \<Rightarrow> 0 | Some c \<Rightarrow> MAX_ROUNDS - round c)")
     (auto simp: round_blockPass round_changes_commit nextRound_def)

declare fixpointRound.simps [simp del]

text \<open>\<^verbatim>\<open>fixpoint(changes, blocks, callback)\<close>. The work item it makes has no
  \<open>waitingFor\<close> and no \<open>waitingCount\<close>.\<close>

definition fixpoint :: "evalRef \<Rightarrow> changes \<Rightarrow> block list \<Rightarrow> callback option \<Rightarrow> world
    \<Rightarrow> world \<times> error option" where
  "fixpoint this changes blockSet callback w =
     (let item = \<lparr>qtype = QChanges, qcommit = None, qactions = None,
                   qchanges = Some (changes\<lparr>changed := True\<rparr>), qcallback = callback,
                   waitingFor = None, waitingCount = None\<rparr>
      in fixpointRound this item blockSet (setCurrent this (Some item) w))"

text \<open>\<^verbatim>\<open>evaluation.waitingFor[blockId] = false\<close> after the driver has returned: it
  writes to the item that \<^verbatim>\<open>onRemoteChanges\<close> read from the slot at its start. When the
  fixpoint has finished, the slot is empty and the item is not reachable any more.\<close>

definition markDelivered :: "evalRef \<Rightarrow> string \<Rightarrow> world \<Rightarrow> world" where
  "markDelivered this blockId w =
     (case currentEvaluation (evals w this) of
        None \<Rightarrow> w
      | Some evaluation \<Rightarrow>
          setCurrent this
            (Some (evaluation\<lparr>waitingFor := map_option (\<lambda>m. obj_set m blockId False) (waitingFor evaluation)\<rparr>)) w)"

text \<open>\<^verbatim>\<open>onRemoteChanges(info)\<close> with \<^verbatim>\<open>info = {blockId, changes}\<close>.\<close>

definition onRemoteChanges :: "evalRef \<Rightarrow> string \<Rightarrow> changes \<Rightarrow> world \<Rightarrow> world \<times> error option" where
  "onRemoteChanges this blockId delivered w =
     (case currentEvaluation (evals w this) of
        None \<Rightarrow> (w, Some TypeError)
      | Some evaluation \<Rightarrow>
          (case waitingFor evaluation of
             None \<Rightarrow> (w, Some TypeError)
           | Some m \<Rightarrow>
               if truthy (obj_get m blockId) then
                 (case qchanges evaluation of
                    None \<Rightarrow> (w, Some TypeError)
                  | Some changes \<Rightarrow>
                      let changes1 = mergeRound delivered changes;
                          evaluation1 = evaluation\<lparr>qchanges := Some changes1,
                            waitingCount := map_option (\<lambda>n. n - 1) (waitingCount evaluation)\<rparr>
                      in if waitingCount evaluation1 = Some 0 then
                           let c = changes_commit (multiIndex (evals w this)) changes1 (dbs w);
                               w1 = emit (Committed this (fst c)) (w\<lparr>dbs := snd (snd c)\<rparr>);
                               evaluation2 = evaluation1\<lparr>qchanges := Some (fst (snd c))\<rparr>;
                               r = fixpointRound this evaluation2 (blocksFromCommit w1 this (fst c))
                                     (setCurrent this (Some evaluation2) w1)
                           in (case snd r of
                                 Some err \<Rightarrow> r
                               | None \<Rightarrow> (markDelivered this blockId (fst r), None))
                         else
                           (setCurrent this
                              (Some (evaluation1\<lparr>waitingFor := Some (obj_set m blockId False)\<rparr>)) w,
                            None))
               else (w, Some (Error ''Got a remote block execution for a block we're not waiting for''))))"

subsection \<open>The queue\<close>

text \<open>The closure \<^verbatim>\<open>processQueue\<close> hands to \<^verbatim>\<open>nextTick\<close>.\<close>

definition processQueueTick :: "evalRef \<Rightarrow> world \<Rightarrow> world \<times> error option" where
  "processQueueTick this w =
     (case evaluationQueue (evals w this) of
        [] \<Rightarrow> (w, None)
      | item # rest \<Rightarrow>
          let w1 = updEval this (\<lambda>self. self\<lparr>evaluationQueue := rest\<rparr>) w;
              finished = Finished (qcallback item)
          in (case qtype item of
                QCommit \<Rightarrow>
                  (case qcommit item of
                     None \<Rightarrow> (w1, Some TypeError)
                   | Some commits \<Rightarrow>
                       fixpoint this newChanges (blocksFromCommit w1 this commits) (Some finished) w1)
              | QActions \<Rightarrow>
                  (case qactions item of
                     None \<Rightarrow> (w1, Some TypeError)
                   | Some actions \<Rightarrow>
                       (case qchanges item of
                          None \<Rightarrow> (w1, Some TypeError)
                        | Some changes \<Rightarrow>
                            let changes1 = foldl (\<lambda>c action. stageAll (action (viewOf w1 (evals w1 this)) c) c)
                                             changes actions;
                                c = changes_commit (multiIndex (evals w1 this)) changes1 (dbs w1);
                                w2 = emit (Committed this (fst c)) (w1\<lparr>dbs := snd (snd c)\<rparr>)
                            in fixpoint this (fst (snd c)) (blocksFromCommit w2 this (fst c))
                                 (Some finished) w2))
              | QChanges \<Rightarrow> (w1, None)))"

text \<open>\<^verbatim>\<open>executeActions(actions, changes, callback)\<close>.\<close>

definition executeActions :: "evalRef \<Rightarrow> action list \<Rightarrow> changes \<Rightarrow> callback option \<Rightarrow> world \<Rightarrow> world" where
  "executeActions this actions changes callback w =
     queue this \<lparr>qtype = QActions, qcommit = None, qactions = Some actions,
                  qchanges = Some changes, qcallback = callback,
                  waitingFor = None, waitingCount = None\<rparr> w"

text \<open>A step of the event loop: it runs the oldest closure that \<^verbatim>\<open>nextTick\<close> was
  handed. The result carries the error when the closure throws; what the host does
  then, end the process or go on to the next closure, is not part of the step.\<close>

definition runTick :: "world \<Rightarrow> world \<times> error option" where
  "runTick w =
     (case ticks w of
        [] \<Rightarrow> (w, None)
      | this # rest \<Rightarrow> processQueueTick this (w\<lparr>ticks := rest\<rparr>))"

section \<open>What the small operations leave alone\<close>

lemma num_simps [simp]: "num 0 = Num ''0''" "num 1 = Num ''1''" "num (- 1) = Num ''-1''"
  by (simp_all add: num_def decimal.simps)

lemma obj_get_own [simp]: "obj key = Some v \<Longrightarrow> obj_get obj key = Own v"
  by (simp add: obj_get_def)

lemma obj_get_missing [simp]:
  "obj key = None \<Longrightarrow> key \<notin> set inheritedNames \<Longrightarrow> obj_get obj key = Missing"
  by (simp add: obj_get_def)

lemma obj_get_inherited [simp]:
  "obj key = None \<Longrightarrow> key \<in> set inheritedNames \<Longrightarrow> obj_get obj key = Inherited"
  by (simp add: obj_get_def)

lemma obj_set_other [simp]: "key \<noteq> ''__proto__'' \<Longrightarrow> obj_set obj key v = obj(key \<mapsto> v)"
  by (simp add: obj_set_def)

text \<open>The names used in the programs below are not inherited ones.\<close>

lemma plain_names [simp]:
  "''main'' \<notin> set inheritedNames" "''shared'' \<notin> set inheritedNames"
  "''other'' \<notin> set inheritedNames" "''e1'' \<notin> set inheritedNames"
  "''remote1'' \<notin> set inheritedNames" "''remote2'' \<notin> set inheritedNames"
  by (simp_all add: inheritedNames_def)

lemma emit_simps [simp]:
  "events (emit e w) = events w @ [e]" "evals (emit e w) = evals w" "dbs (emit e w) = dbs w"
  "ticks (emit e w) = ticks w"
  by (simp_all add: emit_def)

lemma updEval_simps [simp]:
  "events (updEval t f w) = events w" "dbs (updEval t f w) = dbs w" "ticks (updEval t f w) = ticks w"
  "evals (updEval t f w) = (evals w)(t := f (evals w t))"
  by (simp_all add: updEval_def)

lemma processQueue_simps [simp]:
  "events (processQueue t w) = events w" "dbs (processQueue t w) = dbs w"
  "evals (processQueue t w) = evals w" "ticks (processQueue t w) = ticks w @ [t]"
  by (simp_all add: processQueue_def)

lemma queue_frame:
  "events (queue t item w) = events w" "dbs (queue t item w) = dbs w"
  "evals (queue t item w) e =
     (if e = t then (evals w t)\<lparr>evaluationQueue := evaluationQueue (evals w t) @ [enqueued item]\<rparr>
      else evals w e)"
  by (simp_all add: queue_def Let_def enqueued_def)

lemma notify_fold_frame:
  "events (foldl (\<lambda>w' e. if e \<noteq> cur then queue e item w' else w') w es) = events w
   \<and> dbs (foldl (\<lambda>w' e. if e \<noteq> cur then queue e item w' else w') w es) = dbs w
   \<and> evals (foldl (\<lambda>w' e. if e \<noteq> cur then queue e item w' else w') w es) cur = evals w cur"
  by (induction es arbitrary: w) (simp_all add: queue_frame)

lemma notify_fold_queue:
  "evaluationQueue (evals (foldl (\<lambda>w' e. if e \<noteq> cur then queue e item w' else w') w es) e) =
     evaluationQueue (evals w e) @
       (if e = cur then [] else replicate (count_list es e) (enqueued item))"
  by (induction es arbitrary: w) (simp_all add: queue_frame replicate_append_same)

lemma distinct_count_list_le1: "distinct xs \<Longrightarrow> count_list xs x \<le> 1"
  by (induction xs) (auto simp: count_list_0_iff)

text \<open>The events a callback leaves when it is called with a change set: \<^verbatim>\<open>finished\<close>
  passes the call on to the callback of its item, if there is one.\<close>

fun callbackEvents :: "callback \<Rightarrow> changes \<Rightarrow> event list" where
  "callbackEvents (UserCallback k) c = [CallbackInvoked k c]"
| "callbackEvents (Finished None) c = []"
| "callbackEvents (Finished (Some cb)) c = callbackEvents cb c"

lemma setCurrent_simps [simp]:
  "events (setCurrent t i w) = events w" "dbs (setCurrent t i w) = dbs w"
  "ticks (setCurrent t i w) = ticks w"
  "currentEvaluation (evals (setCurrent t i w) t) = i"
  by (simp_all add: setCurrent_def)

lemma onFixpoint_frame:
  "events (onFixpoint d cur c w) = events w"
  "dbs (onFixpoint d cur c w) = dbs w"
  "evals (onFixpoint d cur c w) cur = evals w cur"
  by (simp_all add: onFixpoint_def Let_def notify_fold_frame)

lemma hooks_fold_frame:
  "events (foldl (\<lambda>w' d. onFixpoint d cur c (emit (OnFixpointInvoked d cur) w')) w ds) =
     events w @ map (\<lambda>d. OnFixpointInvoked d cur) ds
   \<and> dbs (foldl (\<lambda>w' d. onFixpoint d cur c (emit (OnFixpointInvoked d cur) w')) w ds) = dbs w
   \<and> evals (foldl (\<lambda>w' d. onFixpoint d cur c (emit (OnFixpointInvoked d cur) w')) w ds) cur = evals w cur"
  by (induction ds arbitrary: w) (simp_all add: onFixpoint_frame)

lemma invokeCallback_frame:
  "events (invokeCallback t cb c w) = events w @ callbackEvents cb c
   \<and> dbs (invokeCallback t cb c w) = dbs w"
  by (induction t cb c w rule: invokeCallback.induct) (auto simp: Let_def split: option.splits)

lemma evaluation_error_frame:
  "events (evaluation_error t kind err w) =
     events w @ [case errorReporter (evals w t) of
                   Some reporter \<Rightarrow> Reported reporter kind err
                 | None \<Rightarrow> ConsoleError (kind @ '':'') err]"
  "dbs (evaluation_error t kind err w) = dbs w"
  "evals (evaluation_error t kind err w) = evals w"
  by (simp_all add: evaluation_error_def split: option.splits)

section \<open>Registering a database\<close>

text \<open>
  C8. \<^verbatim>\<open>registerDatabase(name, db)\<close> throws when the name is already registered in the
  evaluation, and it throws before it has changed anything: the world it leaves is the
  world it found, so the list of databases, the maps \<open>databaseNames\<close> and
  \<open>nameToDatabase\<close>, the multi-index and the evaluations list of the database are
  all as they were.
\<close>

theorem registerDatabase_duplicate_throws:
  assumes "nameToDatabase (evals w this) name = Some d"
  shows "registerDatabase this name db w =
           (w, Some (Error (''Trying to register a database name that is already registered: '' @ name)))
    \<and> databases (evals (fst (registerDatabase this name db w)) this) = databases (evals w this)
    \<and> databaseNames (evals (fst (registerDatabase this name db w)) this) = databaseNames (evals w this)
    \<and> nameToDatabase (evals (fst (registerDatabase this name db w)) this) = nameToDatabase (evals w this)
    \<and> multiIndex (evals (fst (registerDatabase this name db w)) this) = multiIndex (evals w this)
    \<and> evaluations (dbs (fst (registerDatabase this name db w)) db) = evaluations (dbs w db)"
  using assms by (simp add: registerDatabase_def)

theorem registerDatabase_duplicate_throws_witness:
  "nameToDatabase (evals (fst (registerDatabase 0 ''main'' 1 newWorld)) 0) ''main'' = Some 1
   \<and> registerDatabase 0 ''main'' 2 (fst (registerDatabase 0 ''main'' 1 newWorld)) =
       (fst (registerDatabase 0 ''main'' 1 newWorld),
        Some (Error (''Trying to register a database name that is already registered: '' @ ''main'')))"
proof -
  have h: "nameToDatabase (evals (fst (registerDatabase 0 ''main'' 1 newWorld)) 0) ''main'' = Some 1"
    by (simp add: registerDatabase_def newWorld_def newEvaluation_def)
  from h registerDatabase_duplicate_throws [OF h, of 2] show ?thesis
    by blast
qed

section \<open>Notifying the peers of a database\<close>

text \<open>Two evaluations, 0 and 2, that share the database 5 under the name \<open>shared\<close>,
  and a change set that has committed one fact to it.\<close>

definition sharedWorld :: world where
  "sharedWorld = fst (registerDatabase 2 ''shared'' 5 (fst (registerDatabase 0 ''shared'' 5 newWorld)))"

definition oneFact :: changes where
  "oneFact = \<lparr>round = 1, changed = False, staged = [],
     committed = [Entry ''shared'' (Str ''e1'') (Str ''tag'') (Str ''t'') (Str ''n1'') 0 1]\<rparr>"

lemma sharedWorld_simps:
  "databaseToName (evals sharedWorld 0) 5 = Some ''shared''"
  "evaluations (dbs sharedWorld 5) = [0, 2]"
  "evaluationQueue (evals sharedWorld 2) = []"
  by (simp_all add: sharedWorld_def registerDatabase_def newWorld_def newEvaluation_def
      newDatabase_def register_def databaseToName_def Let_def)

text \<open>
  C9. \<^verbatim>\<open>Database.onFixpoint\<close> looks at the committed delta of its own database. When
  that delta is empty it returns and the world is as it was: nothing is enqueued. When
  it is not empty, every registered evaluation other than the current one has a commit
  item carrying that delta appended to its queue, once for each time it is in the
  list of evaluations, and the queue of the current evaluation is left alone. So no
  peer receives an empty commit.
\<close>

theorem onFixpoint_notifies_only_nonempty:
  "let commit = toCommitted [scopeKey (databaseToName (evals w current) db)] changes;
       w' = onFixpoint db current changes w
   in (commit = [] \<longrightarrow> w' = w)
    \<and> (commit \<noteq> [] \<longrightarrow>
         (\<forall>e. evaluationQueue (evals w' e) =
                evaluationQueue (evals w e) @
                  (if e = current then []
                   else replicate (count_list (evaluations (dbs w db)) e)
                          (enqueued (commitItem commit)))))"
  by (simp add: onFixpoint_def Let_def notify_fold_queue)

theorem onFixpoint_notifies_only_nonempty_witness:
  "toCommitted [scopeKey (databaseToName (evals sharedWorld 0) 5)] newChanges = []
   \<and> onFixpoint 5 0 newChanges sharedWorld = sharedWorld
   \<and> toCommitted [scopeKey (databaseToName (evals sharedWorld 0) 5)] oneFact \<noteq> []
   \<and> evaluationQueue (evals (onFixpoint 5 0 oneFact sharedWorld) 2) =
       [enqueued (commitItem [Num ''1'', Str ''e1'', Str ''tag'', Str ''t'', Str ''n1'', Num ''0''])]
   \<and> evaluationQueue (evals (onFixpoint 5 0 oneFact sharedWorld) 0) = []"
proof -
  have e: "toCommitted [scopeKey (databaseToName (evals sharedWorld 0) 5)] newChanges = []"
    by (simp add: toCommitted_def newChanges_def flatten_def)
  have n: "toCommitted [scopeKey (databaseToName (evals sharedWorld 0) 5)] oneFact =
      [Num ''1'', Str ''e1'', Str ''tag'', Str ''t'', Str ''n1'', Num ''0'']"
    by (simp add: toCommitted_def oneFact_def flatten_def sharedWorld_simps scopeKey_def)
  have q0: "evaluationQueue (evals sharedWorld 0) = []"
    by (simp add: sharedWorld_def registerDatabase_def newWorld_def newEvaluation_def Let_def)
  from onFixpoint_notifies_only_nonempty [of sharedWorld 0 5 newChanges] e
  have 1: "onFixpoint 5 0 newChanges sharedWorld = sharedWorld"
    by (simp add: Let_def)
  from onFixpoint_notifies_only_nonempty [of sharedWorld 0 5 oneFact] n
  have 2: "\<forall>e. evaluationQueue (evals (onFixpoint 5 0 oneFact sharedWorld) e) =
                evaluationQueue (evals sharedWorld e) @
                  (if e = 0 then []
                   else replicate (count_list (evaluations (dbs sharedWorld 5)) e)
                          (enqueued (commitItem [Num ''1'', Str ''e1'', Str ''tag'', Str ''t'', Str ''n1'', Num ''0''])))"
    by (simp add: Let_def)
  from 2 have 3: "evaluationQueue (evals (onFixpoint 5 0 oneFact sharedWorld) 2) =
       [enqueued (commitItem [Num ''1'', Str ''e1'', Str ''tag'', Str ''t'', Str ''n1'', Num ''0''])]"
    by (simp add: sharedWorld_simps)
  from 2 q0 have 4: "evaluationQueue (evals (onFixpoint 5 0 oneFact sharedWorld) 0) = []"
    by simp
  from e 1 n 3 4 show ?thesis by simp
qed

section \<open>The end of a fixpoint\<close>

text \<open>What \<^verbatim>\<open>_fixpointRound\<close> reports before it notifies the databases: the
  divergence error when the round counter has reached the cap, nothing otherwise.\<close>

definition errorEvents :: "world \<Rightarrow> evalRef \<Rightarrow> changes \<Rightarrow> event list" where
  "errorEvents w this c =
     (if MAX_ROUNDS \<le> round c
      then [case errorReporter (evals w this) of
              Some reporter \<Rightarrow> Reported reporter ''Fixpoint Error'' ''Evaluation failed to fixpoint''
            | None \<Rightarrow> ConsoleError ''Fixpoint Error:'' ''Evaluation failed to fixpoint'']
      else [])"

text \<open>What the hook of the database \<open>d\<close> appends to the queue of the evaluation
  \<open>peer\<close> when the evaluation \<open>current\<close> ends a fixpoint with the change set \<open>c\<close>, and
  what the hooks of all the databases of \<open>current\<close> append, in the order of its list
  \<open>databases\<close>.\<close>

definition notice :: "world \<Rightarrow> evalRef \<Rightarrow> changes \<Rightarrow> evalRef \<Rightarrow> dbRef \<Rightarrow> queuedEvaluation list" where
  "notice w current c peer d =
     (let delta = toCommitted [scopeKey (databaseToName (evals w current) d)] c
      in if peer = current \<or> delta = [] then []
         else replicate (count_list (evaluations (dbs w d)) peer) (enqueued (commitItem delta)))"

definition notifications :: "world \<Rightarrow> evalRef \<Rightarrow> changes \<Rightarrow> evalRef \<Rightarrow> queuedEvaluation list" where
  "notifications w current c peer =
     concat (map (notice w current c peer) (databases (evals w current)))"

lemma finishFixpoint_frame:
  "events (finishFixpoint t item c w) =
     events w @ errorEvents w t c @ map (\<lambda>d. OnFixpointInvoked d t) (databases (evals w t))
       @ (case qcallback item of None \<Rightarrow> [] | Some cb \<Rightarrow> callbackEvents cb c)"
  "dbs (finishFixpoint t item c w) = dbs w"
  "currentEvaluation (evals (finishFixpoint t item c w) t) = None"
  by (simp_all add: finishFixpoint_def Let_def hooks_fold_frame invokeCallback_frame
      evaluation_error_frame errorEvents_def split: option.splits)

lemma onFixpoint_queue:
  "evaluationQueue (evals (onFixpoint d cur c w) e) = evaluationQueue (evals w e) @ notice w cur c e d"
  by (simp add: onFixpoint_def notice_def Let_def notify_fold_queue)

lemma notice_same:
  "dbs w' = dbs w \<Longrightarrow> evals w' cur = evals w cur \<Longrightarrow> notice w' cur c e = notice w cur c e"
  by (intro ext) (simp add: notice_def Let_def)

lemma hooks_fold_queue:
  "evaluationQueue (evals (foldl (\<lambda>w' d. onFixpoint d cur c (emit (OnFixpointInvoked d cur) w')) w ds) e) =
     evaluationQueue (evals w e) @ concat (map (notice w cur c e) ds)"
proof (induction ds arbitrary: w)
  case Nil
  show ?case by simp
next
  case (Cons d ds)
  define w0 where "w0 = emit (OnFixpointInvoked d cur) w"
  define w1 where "w1 = onFixpoint d cur c w0"
  have n0: "notice w0 cur c e = notice w cur c e"
    by (rule notice_same) (simp_all add: w0_def)
  have n1: "notice w1 cur c e = notice w0 cur c e"
    by (rule notice_same) (simp_all add: w1_def onFixpoint_frame)
  have q: "evaluationQueue (evals w1 e) = evaluationQueue (evals w e) @ notice w cur c e d"
    by (simp add: w1_def onFixpoint_queue n0) (simp add: w0_def)
  from Cons.IH [of w1] q n0 n1 show ?case
    by (simp add: w1_def w0_def)
qed

lemma invokeCallback_queue:
  "evaluationQueue (evals (invokeCallback t cb c w) e) = evaluationQueue (evals w e)"
  by (induction t cb c w rule: invokeCallback.induct) (auto simp: Let_def split: option.splits)

lemma finishFixpoint_queue:
  "evaluationQueue (evals (finishFixpoint t item c w) e) =
     evaluationQueue (evals w e) @ notifications w t c e"
proof -
  define w1 where "w1 = (if MAX_ROUNDS \<le> round c
                then evaluation_error t ''Fixpoint Error'' ''Evaluation failed to fixpoint'' w
                else w)"
  have same: "dbs w1 = dbs w" "evals w1 = evals w"
    by (simp_all add: w1_def evaluation_error_frame)
  then have n: "notice w1 t c x = notice w t c x" for x
    by (intro notice_same) simp_all
  show ?thesis
    unfolding finishFixpoint_def Let_def w1_def [symmetric]
    by (simp add: setCurrent_def invokeCallback_queue hooks_fold_queue n same notifications_def
        split: option.splits)
qed

text \<open>
  C2. When \<^verbatim>\<open>_fixpointRound\<close> is entered with the round counter at \<open>MAX_ROUNDS\<close>
  (whether or not \<open>changed\<close> is still set), it does not throw, and the events it adds
  are, in this order: the error of kind \<open>Fixpoint Error\<close>, sent to the error reporter
  or, without one, to the console; one call of the \<^verbatim>\<open>onFixpoint\<close> hook for every
  registered database; the call of the item's callback with the change set as it is.
  The databases are as they were, so what earlier rounds committed stays committed.
  The hooks notify the peers of that state: the queue of every evaluation has grown by
  the commit items of \<open>notifications\<close>, one for each database it shares with this
  evaluation and for which something was committed. The slot \<open>currentEvaluation\<close> is
  empty.
\<close>

theorem divergence_is_reported_and_finishes:
  assumes "qchanges evaluation = Some c" and "MAX_ROUNDS \<le> round c"
  shows "snd (fixpointRound this evaluation blockSet w) = None
    \<and> events (fst (fixpointRound this evaluation blockSet w)) =
        events w
        @ [case errorReporter (evals w this) of
             Some reporter \<Rightarrow> Reported reporter ''Fixpoint Error'' ''Evaluation failed to fixpoint''
           | None \<Rightarrow> ConsoleError ''Fixpoint Error:'' ''Evaluation failed to fixpoint'']
        @ map (\<lambda>d. OnFixpointInvoked d this) (databases (evals w this))
        @ (case qcallback evaluation of None \<Rightarrow> [] | Some cb \<Rightarrow> callbackEvents cb c)
    \<and> dbs (fst (fixpointRound this evaluation blockSet w)) = dbs w
    \<and> (\<forall>e. evaluationQueue (evals (fst (fixpointRound this evaluation blockSet w)) e) =
              evaluationQueue (evals w e) @ notifications w this c e)
    \<and> currentEvaluation (evals (fst (fixpointRound this evaluation blockSet w)) this) = None"
proof -
  from assms have "fixpointRound this evaluation blockSet w =
      (finishFixpoint this (evaluation\<lparr>waitingCount := Some 0\<rparr>) c w, None)"
    by (subst fixpointRound.simps) simp
  with assms(2) show ?thesis
    by (simp add: finishFixpoint_frame finishFixpoint_queue errorEvents_def)
qed

text \<open>A work item whose change set has reached round 300 after it has committed one
  fact to the shared database, with a callback, and the world in which the index of that
  database holds the fact.\<close>

definition divergedChanges :: changes where
  "divergedChanges = oneFact\<lparr>round := 300, changed := True\<rparr>"

definition divergedWorld :: world where
  "divergedWorld = sharedWorld\<lparr>dbs := (dbs sharedWorld)
     (5 := (dbs sharedWorld 5)\<lparr>index := [(Str ''e1'', Str ''tag'', Str ''t'', Str ''n1'')]\<rparr>)\<rparr>"

definition divergedItem :: queuedEvaluation where
  "divergedItem = \<lparr>qtype = QChanges, qcommit = None, qactions = None,
     qchanges = Some divergedChanges, qcallback = Some (UserCallback 7),
     waitingFor = None, waitingCount = Some 0\<rparr>"

theorem divergence_is_reported_and_finishes_witness:
  "qchanges divergedItem = Some divergedChanges
   \<and> MAX_ROUNDS \<le> round divergedChanges
   \<and> snd (fixpointRound 0 divergedItem [] divergedWorld) = None
   \<and> events (fst (fixpointRound 0 divergedItem [] divergedWorld)) =
        [ConsoleError ''Fixpoint Error:'' ''Evaluation failed to fixpoint'',
         OnFixpointInvoked 5 0, CallbackInvoked 7 divergedChanges]
   \<and> index (dbs (fst (fixpointRound 0 divergedItem [] divergedWorld)) 5) =
        [(Str ''e1'', Str ''tag'', Str ''t'', Str ''n1'')]
   \<and> evaluationQueue (evals divergedWorld 2) = []
   \<and> evaluationQueue (evals (fst (fixpointRound 0 divergedItem [] divergedWorld)) 2) =
        [enqueued (commitItem [Num ''1'', Str ''e1'', Str ''tag'', Str ''t'', Str ''n1'', Num ''0''])]
   \<and> currentEvaluation (evals (fst (fixpointRound 0 divergedItem [] divergedWorld)) 0) = None"
proof -
  have q: "qchanges divergedItem = Some divergedChanges"
    by (simp add: divergedItem_def)
  have r: "MAX_ROUNDS \<le> round divergedChanges"
    by (simp add: divergedChanges_def MAX_ROUNDS_def)
  have w: "events divergedWorld = []" "databases (evals divergedWorld 0) = [5]"
    "errorReporter (evals divergedWorld 0) = None"
    "index (dbs divergedWorld 5) = [(Str ''e1'', Str ''tag'', Str ''t'', Str ''n1'')]"
    "evaluationQueue (evals divergedWorld 2) = []"
    "databaseToName (evals divergedWorld 0) 5 = Some ''shared''"
    "evaluations (dbs divergedWorld 5) = [0, 2]"
    by (simp_all add: divergedWorld_def sharedWorld_def registerDatabase_def newWorld_def
        newEvaluation_def newDatabase_def register_def databaseToName_def Let_def)
  have c: "qcallback divergedItem = Some (UserCallback 7)"
    by (simp add: divergedItem_def)
  have n: "notifications divergedWorld 0 divergedChanges 2 =
      [enqueued (commitItem [Num ''1'', Str ''e1'', Str ''tag'', Str ''t'', Str ''n1'', Num ''0''])]"
    by (simp add: notifications_def notice_def w scopeKey_def toCommitted_def
        divergedChanges_def oneFact_def flatten_def)
  from divergence_is_reported_and_finishes [OF q r, of 0 "[]" divergedWorld] q r show ?thesis
    by (simp add: w c n)
qed

section \<open>Registering an evaluation with a database\<close>

lemma concat_short:
  "(\<And>x. x \<in> set xs \<Longrightarrow> length (f x) \<le> 1) \<Longrightarrow> length (concat (map f xs)) \<le> length xs"
proof (induction xs)
  case Nil
  show ?case by simp
next
  case (Cons x xs)
  from Cons.prems [of x] have "length (f x) \<le> 1" by simp
  moreover from Cons have "length (concat (map f xs)) \<le> length xs" by simp
  ultimately show ?case by simp
qed

lemma notice_short:
  "distinct (evaluations (dbs w d)) \<Longrightarrow> length (notice w cur c e d) \<le> 1"
  using distinct_count_list_le1 [of "evaluations (dbs w d)" e]
  by (simp add: notice_def Let_def)

text \<open>
  C10, amended. \<^verbatim>\<open>Database.register\<close> is idempotent: registering an evaluation that
  is already in the list returns the database unchanged, registering twice is
  registering once, and a list without repetitions stays without repetitions. With
  such a list, one call of the fixpoint hook of the database appends at most one item
  to the queue of any evaluation, and the end of one fixpoint appends to it at most one
  item for each entry of the list of databases of the evaluation that ends it.
\<close>

theorem register_idempotent:
  "(evaluation \<in> set (evaluations db) \<longrightarrow> register evaluation db = db)
   \<and> register evaluation (register evaluation db) = register evaluation db
   \<and> (distinct (evaluations db) \<longrightarrow> distinct (evaluations (register evaluation db)))
   \<and> (distinct (evaluations (dbs w d)) \<longrightarrow>
        (\<forall>e. length (evaluationQueue (evals (onFixpoint d current changes w) e))
              \<le> Suc (length (evaluationQueue (evals w e)))))
   \<and> ((\<forall>d \<in> set (databases (evals w current)). distinct (evaluations (dbs w d))) \<longrightarrow>
        (\<forall>e. length (evaluationQueue (evals (finishFixpoint current item changes w) e))
              \<le> length (evaluationQueue (evals w e)) + length (databases (evals w current))))"
proof -
  have one: "length (evaluationQueue (evals (onFixpoint d current changes w) e))
              \<le> Suc (length (evaluationQueue (evals w e)))" if "distinct (evaluations (dbs w d))" for e
    using notice_short [OF that, of current changes e] by (simp add: onFixpoint_queue)
  have all: "length (evaluationQueue (evals (finishFixpoint current item changes w) e))
              \<le> length (evaluationQueue (evals w e)) + length (databases (evals w current))"
    if "\<forall>d \<in> set (databases (evals w current)). distinct (evaluations (dbs w d))" for e
  proof -
    have "length (concat (map (notice w current changes e) (databases (evals w current))))
            \<le> length (databases (evals w current))"
      using that by (intro concat_short notice_short) simp
    then show ?thesis
      by (simp add: finishFixpoint_queue notifications_def)
  qed
  from one all show ?thesis
    by (auto simp: register_def)
qed

theorem register_idempotent_witness:
  "0 \<in> set (evaluations (dbs sharedWorld 5))
   \<and> register 0 (dbs sharedWorld 5) = dbs sharedWorld 5
   \<and> distinct (evaluations (dbs sharedWorld 5))
   \<and> distinct (evaluations (register 0 (dbs sharedWorld 5)))
   \<and> length (evaluationQueue (evals (onFixpoint 5 0 oneFact sharedWorld) 2))
        \<le> Suc (length (evaluationQueue (evals sharedWorld 2)))
   \<and> databases (evals sharedWorld 0) = [5]
   \<and> length (evaluationQueue (evals (finishFixpoint 0 divergedItem oneFact sharedWorld) 2))
        \<le> length (evaluationQueue (evals sharedWorld 2)) + length (databases (evals sharedWorld 0))"
proof -
  have m: "0 \<in> set (evaluations (dbs sharedWorld 5))"
    and d: "distinct (evaluations (dbs sharedWorld 5))"
    by (simp_all add: sharedWorld_simps)
  have l: "databases (evals sharedWorld 0) = [5]"
    by (simp add: sharedWorld_def registerDatabase_def newWorld_def newEvaluation_def Let_def)
  with d have a: "\<forall>d \<in> set (databases (evals sharedWorld 0)). distinct (evaluations (dbs sharedWorld d))"
    by simp
  from m d l a register_idempotent [of 0 "dbs sharedWorld 5" sharedWorld 5 0 oneFact divergedItem]
  show ?thesis by blast
qed

text \<open>Two evaluations, 0 and 2, that share two databases, 5 under the name \<open>shared\<close>
  and 6 under the name \<open>other\<close>, and a work item of evaluation 0 whose change set has
  committed one fact to each and has not changed in its last round.\<close>

definition twoShared :: world where
  "twoShared = fst (registerDatabase 2 ''other'' 6 (fst (registerDatabase 0 ''other'' 6 sharedWorld)))"

definition twoFacts :: changes where
  "twoFacts = \<lparr>round = 1, changed = False, staged = [],
     committed = [Entry ''shared'' (Str ''e1'') (Str ''tag'') (Str ''t'') (Str ''n1'') 0 1,
                  Entry ''other'' (Str ''e2'') (Str ''tag'') (Str ''u'') (Str ''n1'') 0 1]\<rparr>"

definition settledItem :: queuedEvaluation where
  "settledItem = \<lparr>qtype = QChanges, qcommit = None, qactions = None,
     qchanges = Some twoFacts, qcallback = None, waitingFor = None, waitingCount = None\<rparr>"

lemma twoShared_simps:
  "databases (evals twoShared 0) = [5, 6]"
  "databaseToName (evals twoShared 0) 5 = Some ''shared''"
  "databaseToName (evals twoShared 0) 6 = Some ''other''"
  "evaluations (dbs twoShared 5) = [0, 2]"
  "evaluations (dbs twoShared 6) = [0, 2]"
  "evaluationQueue (evals twoShared 2) = []"
  by (simp_all add: twoShared_def sharedWorld_def registerDatabase_def newWorld_def
      newEvaluation_def newDatabase_def register_def databaseToName_def Let_def)

text \<open>
  C10 as it is worded fails in its last part: a list of evaluations without
  repetitions does not make a peer be notified at most once per fixpoint. The hook is
  called once for every database of the evaluation that ends the fixpoint, and each call
  notifies the peer. Here the two lists of evaluations are without repetitions, one
  call of \<^verbatim>\<open>_fixpointRound\<close> ends the fixpoint, and the peer 2 receives two commit items.
\<close>

theorem peer_of_two_databases_is_notified_twice:
  "distinct (evaluations (dbs twoShared 5))
   \<and> distinct (evaluations (dbs twoShared 6))
   \<and> evaluationQueue (evals twoShared 2) = []
   \<and> snd (fixpointRound 0 settledItem [] twoShared) = None
   \<and> evaluationQueue (evals (fst (fixpointRound 0 settledItem [] twoShared)) 2) =
       [enqueued (commitItem [Num ''1'', Str ''e1'', Str ''tag'', Str ''t'', Str ''n1'', Num ''0'']),
        enqueued (commitItem [Num ''1'', Str ''e2'', Str ''tag'', Str ''u'', Str ''n1'', Num ''0''])]"
proof -
  have r: "fixpointRound 0 settledItem [] twoShared =
      (finishFixpoint 0 (settledItem\<lparr>waitingCount := Some 0\<rparr>) twoFacts twoShared, None)"
    by (subst fixpointRound.simps) (simp add: settledItem_def twoFacts_def)
  have n: "notifications twoShared 0 twoFacts 2 =
      [enqueued (commitItem [Num ''1'', Str ''e1'', Str ''tag'', Str ''t'', Str ''n1'', Num ''0'']),
       enqueued (commitItem [Num ''1'', Str ''e2'', Str ''tag'', Str ''u'', Str ''n1'', Num ''0''])]"
    by (simp add: notifications_def notice_def twoShared_simps scopeKey_def toCommitted_def
        twoFacts_def flatten_def)
  show ?thesis
    by (simp add: r finishFixpoint_queue n twoShared_simps)
qed

section \<open>A delivery for a block that is not awaited\<close>

text \<open>A block is awaited when there is a current work item, the item has a
  \<open>waitingFor\<close> map, and the map holds \<open>true\<close> for the block.\<close>

definition awaited :: "world \<Rightarrow> evalRef \<Rightarrow> string \<Rightarrow> bool" where
  "awaited w this blockId =
     (case currentEvaluation (evals w this) of
        None \<Rightarrow> False
      | Some evaluation \<Rightarrow>
          (case waitingFor evaluation of None \<Rightarrow> False | Some m \<Rightarrow> m blockId = Some True))"

definition hasWaitingFor :: "world \<Rightarrow> evalRef \<Rightarrow> bool" where
  "hasWaitingFor w this =
     (case currentEvaluation (evals w this) of
        None \<Rightarrow> False
      | Some evaluation \<Rightarrow> waitingFor evaluation \<noteq> None)"

text \<open>For a block whose id is not the name of an inherited property,
  \<^verbatim>\<open>onRemoteChanges\<close> does what is asked of it: when the block is not awaited it throws
  and leaves the world as it found it. With a \<open>waitingFor\<close> map the error is the one the
  function raises itself; without a map, or without a current item, the property access
  raises a TypeError.\<close>

lemma onRemoteChanges_refuses:
  assumes "\<not> awaited w this blockId" and "blockId \<notin> set inheritedNames"
  shows "onRemoteChanges this blockId delivered w =
           (w, Some (if hasWaitingFor w this
                     then Error ''Got a remote block execution for a block we're not waiting for''
                     else TypeError))"
proof (cases "currentEvaluation (evals w this)")
  case None
  then show ?thesis by (simp add: onRemoteChanges_def hasWaitingFor_def)
next
  case current: (Some evaluation)
  show ?thesis
  proof (cases "waitingFor evaluation")
    case None
    with current show ?thesis by (simp add: onRemoteChanges_def hasWaitingFor_def)
  next
    case (Some m)
    with current assms(1) have "m blockId \<noteq> Some True" by (simp add: awaited_def)
    with assms(2) have "\<not> truthy (obj_get m blockId)"
      by (cases "m blockId") (simp_all add: truthy_def)
    with current Some show ?thesis by (simp add: onRemoteChanges_def hasWaitingFor_def)
  qed
qed

text \<open>A work item parked on the remote block \<open>remote1\<close>, one parked on two remote
  blocks, and a change set with one staged fact, as a remote block delivers it.\<close>

definition parkedItem :: queuedEvaluation where
  "parkedItem = \<lparr>qtype = QChanges, qcommit = None, qactions = None,
     qchanges = Some (newChanges\<lparr>round := 1\<rparr>), qcallback = None,
     waitingFor = Some [''remote1'' \<mapsto> True], waitingCount = Some 1\<rparr>"

definition parkedWorld :: world where
  "parkedWorld = setCurrent 0 (Some parkedItem) newWorld"



definition delivered :: changes where
  "delivered = stage1 newChanges (Store ''main'' (Str ''e1'') (Str ''n'') (Num ''0'') (Str ''n1''))"


section \<open>The bound on the rounds\<close>

text \<open>The rounds an evaluation has started, read off the events; the event of the
  divergence error; a program without remote blocks; a call of the driver that has
  finished the fixpoint.\<close>

fun roundsStarted :: "evalRef \<Rightarrow> event list \<Rightarrow> nat list" where
  "roundsStarted t [] = []"
| "roundsStarted t (RoundStarted t' r # es) =
     (if t' = t then r # roundsStarted t es else roundsStarted t es)"
| "roundsStarted t (e # es) = roundsStarted t es"

definition divergenceEvent :: "world \<Rightarrow> evalRef \<Rightarrow> event" where
  "divergenceEvent w this =
     (case errorReporter (evals w this) of
        Some reporter \<Rightarrow> Reported reporter ''Fixpoint Error'' ''Evaluation failed to fixpoint''
      | None \<Rightarrow> ConsoleError ''Fixpoint Error:'' ''Evaluation failed to fixpoint'')"

definition localOnly :: "world \<Rightarrow> evalRef \<Rightarrow> block list \<Rightarrow> bool" where
  "localOnly w this blockSet =
     ((\<forall>b \<in> set blockSet. \<not> remote b)
      \<and> (\<forall>d \<in> set (databases (evals w this)). \<forall>b \<in> set (blocks (dbs w d)). \<not> remote b))"

definition finished :: "evalRef \<Rightarrow> world \<times> error option \<Rightarrow> bool" where
  "finished this r = (snd r = None \<and> currentEvaluation (evals (fst r) this) = None)"

lemma roundsStarted_append: "roundsStarted t (xs @ ys) = roundsStarted t xs @ roundsStarted t ys"
  by (induction t xs rule: roundsStarted.induct) simp_all

lemma roundsStarted_hooks: "roundsStarted t (map (\<lambda>d. OnFixpointInvoked d u) ds) = []"
  by (induction ds) simp_all

lemma roundsStarted_callback: "roundsStarted t (callbackEvents cb c) = []"
  by (induction cb c rule: callbackEvents.induct) simp_all

lemma roundsStarted_error: "roundsStarted t (errorEvents w u c) = []"
  by (simp add: errorEvents_def split: option.splits)

lemma blockPass_local:
  "\<forall>b \<in> set bs. \<not> remote b \<Longrightarrow>
   fst (blockPass view bs item c) = None \<and> fst (snd (blockPass view bs item c)) = item"
  by (induction view bs item c rule: blockPass.induct) simp_all

lemma applyEntry_blocks: "blocks (fst (applyEntry mi acc x) d) = blocks (fst acc d)"
  by (simp add: applyEntry_def Let_def split: option.splits)

lemma foldl_applyEntry_blocks: "blocks (fst (foldl (applyEntry mi) acc xs) d) = blocks (fst acc d)"
  by (induction xs arbitrary: acc) (simp_all add: applyEntry_blocks)

lemma changes_commit_blocks: "blocks (snd (snd (changes_commit mi c store)) d) = blocks (store d)"
  by (simp add: changes_commit_def Let_def foldl_applyEntry_blocks)

lemma scanBlocks_subset: "set (fst (scanBlocks view commit bs st)) \<subseteq> set (fst st) \<union> set bs"
proof (induction bs arbitrary: st)
  case Nil
  then show ?case by simp
next
  case (Cons b rest)
  show ?case
  proof (cases "dormant b")
    case True
    with Cons.IH [of st] show ?thesis by auto
  next
    case False
    define st' where "st' = (if fst (scanCommit view b commit 0 (snd st)) then fst st @ [b] else fst st,
                             snd (scanCommit view b commit 0 (snd st)))"
    from False have "scanBlocks view commit (b # rest) st = scanBlocks view commit rest st'"
      by (simp add: Let_def st'_def)
    with Cons.IH [of st'] show ?thesis
      by (auto simp: st'_def split: if_splits)
  qed
qed

lemma scanDatabases_subset:
  "set (fst (scanDatabases store view commit ds st)) \<subseteq> set (fst st) \<union> (\<Union>d \<in> set ds. set (blocks (store d)))"
proof (induction store view commit ds st rule: scanDatabases.induct)
  case (1 store view commit st)
  then show ?case by simp
next
  case (2 store view commit d ds st)
  show ?case
  proof (cases "nonExecuting (store d)")
    case True
    with 2 show ?thesis by auto
  next
    case False
    with 2 have "set (fst (scanDatabases store view commit (d # ds) st))
        \<subseteq> set (fst (scanBlocks view commit (blocks (store d)) st)) \<union> (\<Union>d \<in> set ds. set (blocks (store d)))"
      by simp
    with scanBlocks_subset [of view commit "blocks (store d)" st] show ?thesis by auto
  qed
qed

lemma blocksFromCommit_subset:
  "set (blocksFromCommit w this commit) \<subseteq> (\<Union>d \<in> set (databases (evals w this)). set (blocks (dbs w d)))"
  using scanDatabases_subset [of "dbs w" "viewOf w (evals w this)" commit "databases (evals w this)" "([], Map.empty, [])"]
  by (simp add: blocksFromCommit_def blocksFromCommit_probed_def)


lemma fixpointRound_rounds:
  assumes "qchanges evaluation = Some c"
  shows "\<exists>evs k. events (fst (fixpointRound this evaluation blockSet w)) = events w @ evs
     \<and> roundsStarted this evs = [round c + 1 ..< round c + 1 + k]
     \<and> k \<le> MAX_ROUNDS - round c
     \<and> (finished this (fixpointRound this evaluation blockSet w) \<and> MAX_ROUNDS \<le> round c + k
          \<longrightarrow> divergenceEvent w this \<in> set evs)
     \<and> (localOnly w this blockSet \<longrightarrow> finished this (fixpointRound this evaluation blockSet w))"
  using assms
proof (induction "MAX_ROUNDS - round c" arbitrary: evaluation c blockSet w rule: less_induct)
  case less
  let ?R = "fixpointRound this evaluation blockSet w"
  show ?case
  proof (cases "changed c \<and> round c < MAX_ROUNDS")
    case False
    with less.prems have R: "?R = (finishFixpoint this (evaluation\<lparr>waitingCount := Some 0\<rparr>) c w, None)"
      by (subst fixpointRound.simps) auto
    let ?evs = "errorEvents w this c @ map (\<lambda>d. OnFixpointInvoked d this) (databases (evals w this))
                @ (case qcallback evaluation of None \<Rightarrow> [] | Some cb \<Rightarrow> callbackEvents cb c)"
    have 1: "events (fst ?R) = events w @ ?evs"
      by (simp add: R finishFixpoint_frame)
    have 2: "roundsStarted this ?evs = []"
      by (simp add: roundsStarted_append roundsStarted_error roundsStarted_hooks
          roundsStarted_callback split: option.splits)
    have 3: "finished this ?R"
      by (simp add: R finished_def finishFixpoint_frame)
    have 4: "MAX_ROUNDS \<le> round c \<longrightarrow> divergenceEvent w this \<in> set ?evs"
      by (simp add: errorEvents_def divergenceEvent_def)
    from 1 2 3 4 have "events (fst ?R) = events w @ ?evs
        \<and> roundsStarted this ?evs = [round c + 1 ..< round c + 1 + 0]
        \<and> 0 \<le> MAX_ROUNDS - round c
        \<and> (finished this ?R \<and> MAX_ROUNDS \<le> round c + 0 \<longrightarrow> divergenceEvent w this \<in> set ?evs)
        \<and> (localOnly w this blockSet \<longrightarrow> finished this ?R)"
      by simp
    then show ?thesis by blast
  next
    case True
    define c1 where "c1 = nextRound c"
    define w1 where "w1 = emit (RoundStarted this (round c1)) w"
    define pass where "pass = blockPass (viewOf w1 (evals w1 this)) blockSet
                                (evaluation\<lparr>waitingCount := Some 0\<rparr>) c1"
    define ev1 where "ev1 = fst (snd pass)"
    define c2 where "c2 = snd (snd pass)"
    define cm where "cm = changes_commit (multiIndex (evals w1 this)) c2 (dbs w1)"
    define w2 where "w2 = emit (Committed this (fst cm)) (w1\<lparr>dbs := snd (snd cm)\<rparr>)"
    define c3 where "c3 = fst (snd cm)"
    have R: "?R = (case fst pass of
                     Some err \<Rightarrow> (setCurrent this (Some (ev1\<lparr>qchanges := Some c2\<rparr>)) w1, Some err)
                   | None \<Rightarrow>
                       if waitingCount ev1 = Some 0
                       then fixpointRound this (ev1\<lparr>qchanges := Some c3\<rparr>)
                              (blocksFromCommit w2 this (fst cm)) w2
                       else (setCurrent this (Some (ev1\<lparr>qchanges := Some c2\<rparr>)) w1, None))"
      using True less.prems
      by (subst fixpointRound.simps)
         (simp add: Let_def c1_def w1_def pass_def ev1_def c2_def cm_def w2_def c3_def
            cong: option.case_cong if_cong)
    have rc1: "round c1 = round c + 1"
      by (simp add: c1_def nextRound_def)
    have rc3: "round c3 = round c + 1"
      by (simp add: c3_def cm_def c2_def pass_def round_changes_commit round_blockPass rc1)
    have ev1: "events w1 = events w @ [RoundStarted this (round c + 1)]"
      by (simp add: w1_def rc1)
    have ev2: "events w2 = events w @ [RoundStarted this (round c + 1), Committed this (fst cm)]"
      by (simp add: w2_def ev1)
    have one: "roundsStarted this [RoundStarted this (round c + 1)] = [round c + 1 ..< round c + 1 + 1]"
      by simp
    have k1: "1 \<le> MAX_ROUNDS - round c"
      using True by linarith
    have loc: "fst pass = None \<and> waitingCount ev1 = Some 0" if "localOnly w this blockSet"
      using that blockPass_local [of blockSet "viewOf w1 (evals w1 this)"
          "evaluation\<lparr>waitingCount := Some 0\<rparr>" c1]
      by (simp add: localOnly_def pass_def ev1_def)
    consider (err) e where "fst pass = Some e"
      | (park) "fst pass = None" "waitingCount ev1 \<noteq> Some 0"
      | (go) "fst pass = None" "waitingCount ev1 = Some 0"
      by (cases "fst pass") auto
    then show ?thesis
    proof cases
      case err
      then have R': "?R = (setCurrent this (Some (ev1\<lparr>qchanges := Some c2\<rparr>)) w1, Some e)"
        by (simp add: R)
      have "\<not> finished this ?R" by (simp add: R' finished_def)
      moreover have "\<not> localOnly w this blockSet" using loc err by auto
      moreover have "events (fst ?R) = events w @ [RoundStarted this (round c + 1)]"
        by (simp add: R' ev1)
      ultimately have "events (fst ?R) = events w @ [RoundStarted this (round c + 1)]
        \<and> roundsStarted this [RoundStarted this (round c + 1)] = [round c + 1 ..< round c + 1 + 1]
        \<and> 1 \<le> MAX_ROUNDS - round c
        \<and> (finished this ?R \<and> MAX_ROUNDS \<le> round c + 1
             \<longrightarrow> divergenceEvent w this \<in> set [RoundStarted this (round c + 1)])
        \<and> (localOnly w this blockSet \<longrightarrow> finished this ?R)"
        using one k1 by blast
      then show ?thesis by blast
    next
      case park
      then have R': "?R = (setCurrent this (Some (ev1\<lparr>qchanges := Some c2\<rparr>)) w1, None)"
        by (simp add: R)
      have "\<not> finished this ?R" by (simp add: R' finished_def)
      moreover have "\<not> localOnly w this blockSet" using loc park by auto
      moreover have "events (fst ?R) = events w @ [RoundStarted this (round c + 1)]"
        by (simp add: R' ev1)
      ultimately have "events (fst ?R) = events w @ [RoundStarted this (round c + 1)]
        \<and> roundsStarted this [RoundStarted this (round c + 1)] = [round c + 1 ..< round c + 1 + 1]
        \<and> 1 \<le> MAX_ROUNDS - round c
        \<and> (finished this ?R \<and> MAX_ROUNDS \<le> round c + 1
             \<longrightarrow> divergenceEvent w this \<in> set [RoundStarted this (round c + 1)])
        \<and> (localOnly w this blockSet \<longrightarrow> finished this ?R)"
        using one k1 by blast
      then show ?thesis by blast
    next
      case go
      let ?item = "ev1\<lparr>qchanges := Some c3\<rparr>"
      let ?bs = "blocksFromCommit w2 this (fst cm)"
      from go have R': "?R = fixpointRound this ?item ?bs w2"
        by (simp add: R)
      have less': "MAX_ROUNDS - round c3 < MAX_ROUNDS - round c"
        using True rc3 by linarith
      have q: "qchanges ?item = Some c3" by simp
      from less.hyps [OF less' q, of ?bs w2] obtain evs' k' where
        IH1: "events (fst ?R) = events w2 @ evs'"
        and IH2: "roundsStarted this evs' = [round c3 + 1 ..< round c3 + 1 + k']"
        and IH3: "k' \<le> MAX_ROUNDS - round c3"
        and IH4: "finished this ?R \<and> MAX_ROUNDS \<le> round c3 + k' \<longrightarrow> divergenceEvent w2 this \<in> set evs'"
        and IH5: "localOnly w2 this ?bs \<longrightarrow> finished this ?R"
        unfolding R' by blast
      let ?evs = "[RoundStarted this (round c + 1), Committed this (fst cm)] @ evs'"
      have same: "evals w2 = evals w"
        by (simp add: w2_def w1_def)
      have blocks2: "blocks (dbs w2 d) = blocks (dbs w d)" for d
        by (simp add: w2_def cm_def changes_commit_blocks w1_def)
      have A: "events (fst ?R) = events w @ ?evs"
        by (simp add: IH1 ev2)
      have B: "roundsStarted this ?evs = [round c + 1 ..< round c + 1 + Suc k']"
        by (simp add: IH2 rc3 upt_rec)
      have C: "Suc k' \<le> MAX_ROUNDS - round c"
        using IH3 rc3 True by linarith
      have D: "finished this ?R \<and> MAX_ROUNDS \<le> round c + Suc k' \<longrightarrow> divergenceEvent w this \<in> set ?evs"
        using IH4 rc3 by (simp add: divergenceEvent_def same)
      have "localOnly w2 this ?bs" if "localOnly w this blockSet"
        using that blocksFromCommit_subset [of w2 this "fst cm"]
        by (auto simp: localOnly_def same blocks2)
      with IH5 have E: "localOnly w this blockSet \<longrightarrow> finished this ?R" by blast
      from A B C D E show ?thesis by blast
    qed
  qed
qed


text \<open>
  C1. \<open>fixpointRound\<close> is a total function: the driver returns for every program and
  every seed. From a change set at round \<open>r\<close> it starts the rounds
  \<open>r + 1, r + 2, ..., r + k\<close>, one more each time, with \<open>k \<le> MAX_ROUNDS\<close>; a counter
  that starts at or below \<open>MAX_ROUNDS\<close>, as that of every new change set does, never
  exceeds it. When the call finishes the fixpoint and the counter has reached
  \<open>MAX_ROUNDS\<close>, the divergence error is among the events. With no remote block in the
  program, the call always finishes the fixpoint.
\<close>

theorem fixpoint_terminates_within_MAX_ROUNDS:
  assumes "qchanges evaluation = Some c"
  shows "\<exists>evs k. events (fst (fixpointRound this evaluation blockSet w)) = events w @ evs
     \<and> roundsStarted this evs = [round c + 1 ..< round c + 1 + k]
     \<and> k \<le> MAX_ROUNDS
     \<and> (round c \<le> MAX_ROUNDS \<longrightarrow> round c + k \<le> MAX_ROUNDS)
     \<and> (finished this (fixpointRound this evaluation blockSet w) \<and> MAX_ROUNDS \<le> round c + k
          \<longrightarrow> divergenceEvent w this \<in> set evs)
     \<and> (localOnly w this blockSet \<longrightarrow> finished this (fixpointRound this evaluation blockSet w))"
proof -
  from fixpointRound_rounds [OF assms, of this blockSet w] obtain evs k where
    1: "events (fst (fixpointRound this evaluation blockSet w)) = events w @ evs"
    and 2: "roundsStarted this evs = [round c + 1 ..< round c + 1 + k]"
    and 3: "k \<le> MAX_ROUNDS - round c"
    and 4: "finished this (fixpointRound this evaluation blockSet w) \<and> MAX_ROUNDS \<le> round c + k
          \<longrightarrow> divergenceEvent w this \<in> set evs"
    and 5: "localOnly w this blockSet \<longrightarrow> finished this (fixpointRound this evaluation blockSet w)"
    by blast
  from 3 have 6: "k \<le> MAX_ROUNDS" and 7: "round c \<le> MAX_ROUNDS \<longrightarrow> round c + k \<le> MAX_ROUNDS"
    by linarith+
  from 1 2 6 7 4 5 show ?thesis by blast
qed

text \<open>A program that never reaches a fixpoint: in every round its one block replaces
  the value of each fact \<open>(e, n, v)\<close> by the number of the round.\<close>

definition counterBlock :: block where
  "counterBlock = \<lparr>bid = ''counter'', dormant = False, remote = False,
     check = (\<lambda>view change tags e a v. a = Str ''n''),
     execute = (\<lambda>view c. concat (map (\<lambda>(name, ix). concat (map
        (\<lambda>(e, a, v, n). [Unstore ''main'' e a v n, Store ''main'' e a (num (int (round c))) n])
        (filter (\<lambda>(e, a, v, n). a = Str ''n'') ix))) view))\<rparr>"

definition counterWorld :: world where
  "counterWorld =
     (let w = fst (registerDatabase 0 ''main'' 3 newWorld)
      in w\<lparr>dbs := (dbs w)(3 := (dbs w 3)\<lparr>blocks := [counterBlock]\<rparr>)\<rparr>)"

definition seedItem :: queuedEvaluation where
  "seedItem = \<lparr>qtype = QChanges, qcommit = None, qactions = None,
     qchanges = Some (newChanges\<lparr>changed := True\<rparr>), qcallback = None,
     waitingFor = None, waitingCount = None\<rparr>"

theorem fixpoint_terminates_within_MAX_ROUNDS_witness:
  "qchanges seedItem = Some (newChanges\<lparr>changed := True\<rparr>)
   \<and> round (newChanges\<lparr>changed := True\<rparr>) \<le> MAX_ROUNDS
   \<and> localOnly counterWorld 0 [counterBlock]
   \<and> finished 0 (fixpointRound 0 seedItem [counterBlock] counterWorld)
   \<and> (\<exists>evs k. events (fst (fixpointRound 0 seedItem [counterBlock] counterWorld)) =
                  events counterWorld @ evs
          \<and> roundsStarted 0 evs = [1 ..< 1 + k] \<and> k \<le> 300)"
proof -
  have q: "qchanges seedItem = Some (newChanges\<lparr>changed := True\<rparr>)"
    by (simp add: seedItem_def)
  have r: "round (newChanges\<lparr>changed := True\<rparr>) \<le> MAX_ROUNDS"
    and r0: "round (newChanges\<lparr>changed := True\<rparr>) = 0"
    by (simp_all add: newChanges_def)
  have l: "localOnly counterWorld 0 [counterBlock]"
    by (simp add: localOnly_def counterWorld_def counterBlock_def registerDatabase_def
        newWorld_def newEvaluation_def newDatabase_def register_def Let_def)
  from fixpoint_terminates_within_MAX_ROUNDS [OF q, of 0 "[counterBlock]" counterWorld]
  obtain evs k where
    e: "events (fst (fixpointRound 0 seedItem [counterBlock] counterWorld)) = events counterWorld @ evs"
    and s: "roundsStarted 0 evs = [round (newChanges\<lparr>changed := True\<rparr>) + 1
                                    ..< round (newChanges\<lparr>changed := True\<rparr>) + 1 + k]"
    and k: "k \<le> MAX_ROUNDS"
    and f: "localOnly counterWorld 0 [counterBlock]
              \<longrightarrow> finished 0 (fixpointRound 0 seedItem [counterBlock] counterWorld)"
    by blast
  from s have s': "roundsStarted 0 evs = [1 ..< 1 + k]" by (simp add: r0)
  from k have k': "k \<le> 300" by (simp add: MAX_ROUNDS_def)
  from f l have "finished 0 (fixpointRound 0 seedItem [counterBlock] counterWorld)" by blast
  with q r l e s' k' show ?thesis by blast
qed

section \<open>The activation scan\<close>

text \<open>The scan described in the words of the specification. A commit of length \<open>n\<close> holds
  one change for every six cells, a shorter last group included. The tags the checker is
  handed for a change are those looked up for the first change of the commit whose
  entity has the same property key: that is the entry the cache holds. For an entity
  whose property key is an inherited name there is no lookup, and the checker is handed
  the inherited value. A block matches a change when its checker returns true for it;
  the scan of a block visits the changes up to and including its first match.\<close>

definition nchanges :: "jsval list \<Rightarrow> nat" where
  "nchanges commit = (length commit + 5) div 6"

definition entityAt :: "jsval list \<Rightarrow> nat \<Rightarrow> jsval" where
  "entityAt commit k = nth_js commit (6 * k + 1)"

definition firstWithKey :: "jsval list \<Rightarrow> string \<Rightarrow> nat" where
  "firstWithKey commit key =
     (case find (\<lambda>j. prop_key (entityAt commit j) = key) [0 ..< nchanges commit] of
        Some j \<Rightarrow> j
      | None \<Rightarrow> 0)"

definition tagsOfKey :: "indexView \<Rightarrow> jsval list \<Rightarrow> string \<Rightarrow> jsval list" where
  "tagsOfKey view commit key =
     dangerousMergeLookup view (entityAt commit (firstWithKey commit key)) (Str ''tag'')"

definition tagsGiven :: "indexView \<Rightarrow> jsval list \<Rightarrow> nat \<Rightarrow> tagsArg" where
  "tagsGiven view commit k =
     (let key = prop_key (entityAt commit k)
      in if key \<in> set inheritedNames then InheritedValue key
         else Tags (tagsOfKey view commit key))"

definition matches :: "indexView \<Rightarrow> jsval list \<Rightarrow> block \<Rightarrow> nat \<Rightarrow> bool" where
  "matches view commit b k =
     check b view (nth_js commit (6 * k)) (tagsGiven view commit k) (entityAt commit k)
       (nth_js commit (6 * k + 2)) (nth_js commit (6 * k + 3))"

definition firstMatch :: "indexView \<Rightarrow> jsval list \<Rightarrow> block \<Rightarrow> nat option" where
  "firstMatch view commit b = find (matches view commit b) [0 ..< nchanges commit]"

definition visited :: "indexView \<Rightarrow> jsval list \<Rightarrow> block \<Rightarrow> nat" where
  "visited view commit b =
     (case firstMatch view commit b of Some m \<Rightarrow> Suc m | None \<Rightarrow> nchanges commit)"

text \<open>The tag lookups and the checker calls among the calls of a scan.\<close>

fun lookupsOf :: "probe list \<Rightarrow> jsval list" where
  "lookupsOf [] = []"
| "lookupsOf (Lookup e # ps) = e # lookupsOf ps"
| "lookupsOf (Check b ix # ps) = lookupsOf ps"

fun checksOf :: "probe list \<Rightarrow> (string \<times> nat) list" where
  "checksOf [] = []"
| "checksOf (Lookup e # ps) = checksOf ps"
| "checksOf (Check b ix # ps) = (b, ix) # checksOf ps"

text \<open>What holds of the cache and of the calls made, between any two steps of the scan.\<close>

definition scanInv :: "indexView \<Rightarrow> jsval list \<Rightarrow> tagsCache \<Rightarrow> probe list \<Rightarrow> bool" where
  "scanInv view commit cache log =
     ((\<forall>key t. cache key = Some t \<longrightarrow> t = tagsOfKey view commit key)
      \<and> distinct (map prop_key (lookupsOf log))
      \<and> set (map prop_key (lookupsOf log)) = dom cache
      \<and> dom cache \<inter> set inheritedNames = {})"

lemma lookupsOf_append: "lookupsOf (xs @ ys) = lookupsOf xs @ lookupsOf ys"
  by (induction xs rule: lookupsOf.induct) simp_all

lemma checksOf_append: "checksOf (xs @ ys) = checksOf xs @ checksOf ys"
  by (induction xs rule: checksOf.induct) simp_all

lemma ix_in_range: "6 * k < length commit \<longleftrightarrow> k < nchanges commit"
  unfolding nchanges_def by linarith

lemma firstWithKey_fresh:
  assumes "k < nchanges commit" and "\<forall>j<k. prop_key (entityAt commit j) \<noteq> prop_key (entityAt commit k)"
  shows "firstWithKey commit (prop_key (entityAt commit k)) = k"
proof -
  have "find (\<lambda>j. prop_key (entityAt commit j) = prop_key (entityAt commit k)) [0 ..< nchanges commit] = Some k"
    using assms by (auto simp: find_Some_iff intro!: exI [of _ k])
  then show ?thesis by (simp add: firstWithKey_def)
qed

lemma find_upt_step:
  "k < n \<Longrightarrow> find P [k ..< n] = (if P k then Some k else find P [Suc k ..< n])"
  by (simp add: upt_conv_Cons)

lemma find_upt_bounds: "find P [k ..< n] = Some m \<Longrightarrow> k \<le> m \<and> m < n"
  by (auto simp: find_Some_iff)

text \<open>One step of the innermost loop, at the change \<open>k\<close>. The lookup is made exactly
  when the cache has no entry for the key and the key is not an inherited name.\<close>

lemma scanCommit_step:
  fixes b :: block
  assumes inv: "scanInv view commit cache log"
    and seen: "\<forall>j<k. prop_key (entityAt commit j) \<in> dom cache \<union> set inheritedNames"
    and k: "k < nchanges commit"
  defines "key \<equiv> prop_key (entityAt commit k)"
  defines "fresh \<equiv> cache key = None \<and> key \<notin> set inheritedNames"
  defines "cache1 \<equiv> (if fresh then cache(key \<mapsto> tagsOfKey view commit key) else cache)"
  defines "log1 \<equiv> (if fresh then log @ [Lookup (entityAt commit k)] else log) @ [Check (bid b) (6 * k)]"
  shows "scanCommit view b commit (6 * k) (cache, log) =
           (if matches view commit b k then (True, cache1, log1)
            else scanCommit view b commit (6 * Suc k) (cache1, log1))"
    and "scanInv view commit cache1 log1"
    and "\<forall>j<Suc k. prop_key (entityAt commit j) \<in> dom cache1 \<union> set inheritedNames"
    and "checksOf log1 = checksOf log @ [(bid b, 6 * k)]"
proof -
  have cached: "\<And>key t. cache key = Some t \<Longrightarrow> t = tagsOfKey view commit key"
    and dist: "distinct (map prop_key (lookupsOf log))"
    and dom: "set (map prop_key (lookupsOf log)) = dom cache"
    and plain: "dom cache \<inter> set inheritedNames = {}"
    using inv by (simp_all add: scanInv_def)
  have first: "firstWithKey commit key = k" if fresh
  proof -
    have "\<forall>j<k. prop_key (entityAt commit j) \<noteq> prop_key (entityAt commit k)"
      using that seen by (auto simp: fresh_def key_def)
    from firstWithKey_fresh [OF k this] show ?thesis by (simp add: key_def)
  qed
  consider (own) t where "cache key = Some t"
    | (inherited) "cache key = None" "key \<in> set inheritedNames"
    | (missing) "cache key = None" "key \<notin> set inheritedNames"
    by (cases "cache key") auto
  then show "scanCommit view b commit (6 * k) (cache, log) =
           (if matches view commit b k then (True, cache1, log1)
            else scanCommit view b commit (6 * Suc k) (cache1, log1))"
  proof cases
    case own
    with plain have ni: "key \<notin> set inheritedNames" by auto
    from own cached [OF own] have c: "cache key = Some (tagsOfKey view commit key)" by simp
    from c ni k show ?thesis
      unfolding cache1_def log1_def fresh_def key_def entityAt_def
      by (subst scanCommit.simps)
         (simp add: ix_in_range Let_def matches_def tagsGiven_def entityAt_def add.commute)
  next
    case inherited
    with k show ?thesis
      unfolding cache1_def log1_def fresh_def key_def entityAt_def
      by (subst scanCommit.simps)
         (simp add: ix_in_range Let_def matches_def tagsGiven_def entityAt_def add.commute)
  next
    case missing
    then have fresh by (simp add: fresh_def)
    from first [OF this] have t: "tagsOfKey view commit key =
        dangerousMergeLookup view (entityAt commit k) (Str ''tag'')"
      by (simp add: tagsOfKey_def)
    from t missing k show ?thesis
      unfolding cache1_def log1_def fresh_def key_def entityAt_def
      by (subst scanCommit.simps)
         (simp add: ix_in_range Let_def matches_def tagsGiven_def entityAt_def add.commute)
  qed
  show "scanInv view commit cache1 log1"
  proof (cases fresh)
    case True
    then have "key \<notin> set (map prop_key (lookupsOf log))"
      using dom by (auto simp: fresh_def)
    with True cached dist dom plain show ?thesis
      by (auto simp: scanInv_def cache1_def log1_def lookupsOf_append fresh_def key_def)
  next
    case False
    with inv show ?thesis
      by (simp add: scanInv_def cache1_def log1_def lookupsOf_append)
  qed
  show "\<forall>j<Suc k. prop_key (entityAt commit j) \<in> dom cache1 \<union> set inheritedNames"
  proof (intro allI impI)
    fix j assume "j < Suc k"
    then consider "j < k" | "j = k" by linarith
    then show "prop_key (entityAt commit j) \<in> dom cache1 \<union> set inheritedNames"
    proof cases
      case 1
      with seen show ?thesis by (auto simp: cache1_def)
    next
      case 2
      then show ?thesis by (auto simp: cache1_def fresh_def key_def)
    qed
  qed
  show "checksOf log1 = checksOf log @ [(bid b, 6 * k)]"
    by (simp add: log1_def checksOf_append)
qed

lemma scanCommit_spec:
  assumes "scanInv view commit cache log"
    and "\<forall>j<k. prop_key (entityAt commit j) \<in> dom cache \<union> set inheritedNames"
  shows "\<exists>cache' log'.
      scanCommit view b commit (6 * k) (cache, log) =
        (find (matches view commit b) [k ..< nchanges commit] \<noteq> None, cache', log')
      \<and> scanInv view commit cache' log'
      \<and> checksOf log' = checksOf log @ map (\<lambda>j. (bid b, 6 * j))
            [k ..< (case find (matches view commit b) [k ..< nchanges commit] of
                      Some m \<Rightarrow> Suc m | None \<Rightarrow> nchanges commit)]"
  using assms
proof (induction "nchanges commit - k" arbitrary: k cache log rule: less_induct)
  case less
  show ?case
  proof (cases "k < nchanges commit")
    case False
    then have "scanCommit view b commit (6 * k) (cache, log) = (False, cache, log)"
      by (subst scanCommit.simps) (simp add: ix_in_range)
    with False less.prems(1) show ?thesis by simp
  next
    case True
    note st = scanCommit_step [OF less.prems True]
    from st(1) [where b = b] st(2) [where b = b] st(3) st(4) [where b = b] obtain cache1 log1 where
      step: "scanCommit view b commit (6 * k) (cache, log) =
        (if matches view commit b k then (True, cache1, log1)
         else scanCommit view b commit (6 * Suc k) (cache1, log1))"
      and inv1: "scanInv view commit cache1 log1"
      and pre1: "\<forall>j<Suc k. prop_key (entityAt commit j) \<in> dom cache1 \<union> set inheritedNames"
      and chk: "checksOf log1 = checksOf log @ [(bid b, 6 * k)]"
      by blast
    show ?thesis
    proof (cases "matches view commit b k")
      case m: True
      with True have "find (matches view commit b) [k ..< nchanges commit] = Some k"
        by (simp add: find_upt_step)
      with m step inv1 chk show ?thesis by simp
    next
      case m: False
      with True have f: "find (matches view commit b) [k ..< nchanges commit] =
          find (matches view commit b) [Suc k ..< nchanges commit]"
        by (simp add: find_upt_step)
      have "nchanges commit - Suc k < nchanges commit - k" using True by linarith
      from less.hyps [OF this inv1 pre1] obtain cache' log' where
        r: "scanCommit view b commit (6 * Suc k) (cache1, log1) =
             (find (matches view commit b) [Suc k ..< nchanges commit] \<noteq> None, cache', log')"
        and i: "scanInv view commit cache' log'"
        and c: "checksOf log' = checksOf log1 @ map (\<lambda>j. (bid b, 6 * j))
            [Suc k ..< (case find (matches view commit b) [Suc k ..< nchanges commit] of
                      Some m \<Rightarrow> Suc m | None \<Rightarrow> nchanges commit)]"
        by blast
      have bound: "Suc k \<le> (case find (matches view commit b) [Suc k ..< nchanges commit] of
                      Some m \<Rightarrow> Suc m | None \<Rightarrow> nchanges commit)"
        using True by (auto split: option.splits dest: find_upt_bounds)
      have "[k ..< (case find (matches view commit b) [Suc k ..< nchanges commit] of
                      Some m \<Rightarrow> Suc m | None \<Rightarrow> nchanges commit)]
            = k # [Suc k ..< (case find (matches view commit b) [Suc k ..< nchanges commit] of
                      Some m \<Rightarrow> Suc m | None \<Rightarrow> nchanges commit)]"
        using bound by (simp add: upt_conv_Cons)
      with m step r i c chk f show ?thesis by simp
    qed
  qed
qed


definition expectedChecks :: "indexView \<Rightarrow> jsval list \<Rightarrow> block \<Rightarrow> (string \<times> nat) list" where
  "expectedChecks view commit b = map (\<lambda>k. (bid b, 6 * k)) [0 ..< visited view commit b]"

lemma scanBlocks_spec:
  assumes "scanInv view commit (fst (snd st)) (snd (snd st))"
  shows "\<exists>cache' log'.
      scanBlocks view commit bs st =
        (fst st @ filter (\<lambda>b. firstMatch view commit b \<noteq> None) (filter (\<lambda>b. \<not> dormant b) bs),
         cache', log')
      \<and> scanInv view commit cache' log'
      \<and> checksOf log' = checksOf (snd (snd st))
           @ concat (map (expectedChecks view commit) (filter (\<lambda>b. \<not> dormant b) bs))"
  using assms
proof (induction bs arbitrary: st)
  case Nil
  then show ?case by (cases st) auto
next
  case (Cons b rest)
  show ?case
  proof (cases "dormant b")
    case True
    with Cons.IH [OF Cons.prems] show ?thesis by simp
  next
    case False
    obtain acc cache log where st: "st = (acc, cache, log)" by (cases st) auto
    from Cons.prems st have inv: "scanInv view commit cache log" by simp
    from scanCommit_spec [OF inv, of 0 b] obtain cache1 log1 where
      r: "scanCommit view b commit 0 (cache, log) = (firstMatch view commit b \<noteq> None, cache1, log1)"
      and i: "scanInv view commit cache1 log1"
      and c: "checksOf log1 = checksOf log @ expectedChecks view commit b"
      by (auto simp: firstMatch_def expectedChecks_def visited_def)
    define st' where "st' = (if firstMatch view commit b \<noteq> None then acc @ [b] else acc, cache1, log1)"
    from False r have step: "scanBlocks view commit (b # rest) st = scanBlocks view commit rest st'"
      by (simp add: st st'_def Let_def)
    from i have "scanInv view commit (fst (snd st')) (snd (snd st'))" by (simp add: st'_def)
    from Cons.IH [OF this] obtain cache' log' where
      "scanBlocks view commit rest st' =
        (fst st' @ filter (\<lambda>b. firstMatch view commit b \<noteq> None) (filter (\<lambda>b. \<not> dormant b) rest),
         cache', log')"
      and "scanInv view commit cache' log'"
      and "checksOf log' = checksOf (snd (snd st'))
           @ concat (map (expectedChecks view commit) (filter (\<lambda>b. \<not> dormant b) rest))"
      by blast
    with False step c show ?thesis
      by (simp add: st st'_def)
  qed
qed

lemma scanDatabases_spec:
  assumes "scanInv view commit (fst (snd st)) (snd (snd st))"
  shows "\<exists>cache' log'.
      scanDatabases store view commit ds st =
        (fst st @ filter (\<lambda>b. firstMatch view commit b \<noteq> None)
                    (concat (map (\<lambda>d. filter (\<lambda>b. \<not> dormant b) (blocks (store d)))
                                 (filter (\<lambda>d. \<not> nonExecuting (store d)) ds))),
         cache', log')
      \<and> scanInv view commit cache' log'
      \<and> checksOf log' = checksOf (snd (snd st))
           @ concat (map (expectedChecks view commit)
                         (concat (map (\<lambda>d. filter (\<lambda>b. \<not> dormant b) (blocks (store d)))
                                      (filter (\<lambda>d. \<not> nonExecuting (store d)) ds))))"
  using assms
proof (induction ds arbitrary: st)
  case Nil
  then show ?case by (cases st) auto
next
  case (Cons d rest)
  show ?case
  proof (cases "nonExecuting (store d)")
    case True
    with Cons.IH [OF Cons.prems] show ?thesis by simp
  next
    case False
    from scanBlocks_spec [OF Cons.prems, of "blocks (store d)"] obtain cache1 log1 where
      b: "scanBlocks view commit (blocks (store d)) st =
        (fst st @ filter (\<lambda>b. firstMatch view commit b \<noteq> None)
                    (filter (\<lambda>b. \<not> dormant b) (blocks (store d))), cache1, log1)"
      and i: "scanInv view commit cache1 log1"
      and c: "checksOf log1 = checksOf (snd (snd st))
           @ concat (map (expectedChecks view commit) (filter (\<lambda>b. \<not> dormant b) (blocks (store d))))"
      by blast
    define st' where "st' = scanBlocks view commit (blocks (store d)) st"
    from i b have "scanInv view commit (fst (snd st')) (snd (snd st'))" by (simp add: st'_def)
    from Cons.IH [OF this] obtain cache' log' where
      "scanDatabases store view commit rest st' =
        (fst st' @ filter (\<lambda>b. firstMatch view commit b \<noteq> None)
                    (concat (map (\<lambda>d. filter (\<lambda>b. \<not> dormant b) (blocks (store d)))
                                 (filter (\<lambda>d. \<not> nonExecuting (store d)) rest))),
         cache', log')"
      and "scanInv view commit cache' log'"
      and "checksOf log' = checksOf (snd (snd st'))
           @ concat (map (expectedChecks view commit)
                         (concat (map (\<lambda>d. filter (\<lambda>b. \<not> dormant b) (blocks (store d)))
                                      (filter (\<lambda>d. \<not> nonExecuting (store d)) rest))))"
      by blast
    with False b c show ?thesis
      by (simp add: st'_def)
  qed
qed

text \<open>
  C3, amended. \<^verbatim>\<open>blocksFromCommit\<close> scans the databases whose \<open>nonExecuting\<close> flag is
  not set (the flagged ones are skipped), and in them the blocks that are not dormant:
  these are the blocks of \<^verbatim>\<open>getAllBlocks\<close>. The result is, in that order, the blocks
  whose checker returns true for some change of the six-wide commit, when it is handed
  the tags of \<open>tagsGiven\<close>. For each scanned block the checker is called at the offsets
  \<open>0, 6, 12, ...\<close> up to and including the first match and at no later offset. The tag
  lookup is made at most once for each property key of an entity during the whole scan.
\<close>

theorem blocksFromCommit_scan:
  "blocksFromCommit w this commit =
     filter (\<lambda>b. firstMatch (viewOf w (evals w this)) commit b \<noteq> None) (getAllBlocks w this)
   \<and> checksOf (snd (snd (blocksFromCommit_probed w this commit))) =
       concat (map (expectedChecks (viewOf w (evals w this)) commit) (getAllBlocks w this))
   \<and> distinct (map prop_key (lookupsOf (snd (snd (blocksFromCommit_probed w this commit)))))"
proof -
  have "scanInv (viewOf w (evals w this)) commit (fst (snd ([], Map.empty, []))) (snd (snd ([], Map.empty, [])))"
    by (simp add: scanInv_def)
  from scanDatabases_spec [OF this, of "dbs w" "databases (evals w this)"]
  show ?thesis
    by (auto simp: blocksFromCommit_def blocksFromCommit_probed_def getAllBlocks_def scanInv_def)
qed

section \<open>Draining an actions item\<close>

text \<open>The entry a stage leaves in a change set at round \<open>r\<close>; the stages of a list of
  actions, each action seeing the change set with the stages of the actions before it;
  and the number of commits among the events before the first round starts.\<close>

fun entryOf :: "nat \<Rightarrow> stage \<Rightarrow> entry" where
  "entryOf r (Store db e a v n) = Entry db e a v n r 1"
| "entryOf r (Unstore db e a v n) = Entry db e a v n r (- 1)"

fun actionStages :: "indexView \<Rightarrow> action list \<Rightarrow> changes \<Rightarrow> stage list" where
  "actionStages view [] c = []"
| "actionStages view (action # rest) c =
     action view c @ actionStages view rest (stageAll (action view c) c)"

fun isCommitted :: "event \<Rightarrow> bool" where
  "isCommitted (Committed t delta) = True"
| "isCommitted e = False"

fun isRoundStarted :: "event \<Rightarrow> bool" where
  "isRoundStarted (RoundStarted t r) = True"
| "isRoundStarted e = False"

definition commitsBeforeFirstRound :: "event list \<Rightarrow> nat" where
  "commitsBeforeFirstRound evs = length (filter isCommitted (takeWhile (\<lambda>e. \<not> isRoundStarted e) evs))"

lemma stage1_eq: "stage1 c s = c\<lparr>staged := staged c @ [entryOf (round c) s]\<rparr>"
  by (cases s) simp_all

lemma stageAll_eq: "stageAll ss c = c\<lparr>staged := staged c @ map (entryOf (round c)) ss\<rparr>"
proof -
  have f: "stage1 = (\<lambda>a s. a\<lparr>staged := staged a @ [entryOf (round a) s]\<rparr>)"
    by (intro ext) (simp add: stage1_eq)
  have "foldl (\<lambda>a s. a\<lparr>staged := staged a @ [entryOf (round a) s]\<rparr>) c ss =
          c\<lparr>staged := staged c @ map (entryOf (round c)) ss\<rparr>"
    by (induction ss arbitrary: c) simp_all
  with f show ?thesis by (simp add: stageAll_def)
qed

lemma stageAll_append: "stageAll (xs @ ys) c = stageAll ys (stageAll xs c)"
  by (simp add: stageAll_def)

lemma actions_fold_eq:
  "foldl (\<lambda>c action. stageAll (action view c) c) c actions = stageAll (actionStages view actions c) c"
  by (induction actions arbitrary: c) (simp_all add: stageAll_append, simp add: stageAll_def)

lemma no_commit_callback: "filter isCommitted (callbackEvents cb c) = []"
  by (induction cb c rule: callbackEvents.induct) simp_all

lemma finishEvents_no_commit:
  "filter isCommitted (errorEvents w t c @ map (\<lambda>d. OnFixpointInvoked d t) ds
      @ (case cbo of None \<Rightarrow> [] | Some cb \<Rightarrow> callbackEvents cb c)) = []"
  by (simp add: errorEvents_def no_commit_callback split: option.splits)

lemma fixpointRound_first_round:
  assumes "qchanges evaluation = Some c" and "changed c \<and> round c < MAX_ROUNDS"
  shows "\<exists>evs. events (fst (fixpointRound this evaluation blockSet w)) =
           events w @ RoundStarted this (round c + 1) # evs"
proof -
  let ?R = "fixpointRound this evaluation blockSet w"
  define c1 where "c1 = nextRound c"
  define w1 where "w1 = emit (RoundStarted this (round c1)) w"
  define pass where "pass = blockPass (viewOf w1 (evals w1 this)) blockSet
                              (evaluation\<lparr>waitingCount := Some 0\<rparr>) c1"
  define ev1 where "ev1 = fst (snd pass)"
  define c2 where "c2 = snd (snd pass)"
  define cm where "cm = changes_commit (multiIndex (evals w1 this)) c2 (dbs w1)"
  define w2 where "w2 = emit (Committed this (fst cm)) (w1\<lparr>dbs := snd (snd cm)\<rparr>)"
  define c3 where "c3 = fst (snd cm)"
  have R: "?R = (case fst pass of
                   Some err \<Rightarrow> (setCurrent this (Some (ev1\<lparr>qchanges := Some c2\<rparr>)) w1, Some err)
                 | None \<Rightarrow>
                     if waitingCount ev1 = Some 0
                     then fixpointRound this (ev1\<lparr>qchanges := Some c3\<rparr>)
                            (blocksFromCommit w2 this (fst cm)) w2
                     else (setCurrent this (Some (ev1\<lparr>qchanges := Some c2\<rparr>)) w1, None))"
    using assms
    by (subst fixpointRound.simps)
       (simp add: Let_def c1_def w1_def pass_def ev1_def c2_def cm_def w2_def c3_def
          cong: option.case_cong if_cong)
  have ev1: "events w1 = events w @ [RoundStarted this (round c + 1)]"
    by (simp add: w1_def c1_def nextRound_def)
  have ev2: "events w2 = events w @ [RoundStarted this (round c + 1), Committed this (fst cm)]"
    by (simp add: w2_def ev1)
  have q: "qchanges (ev1\<lparr>qchanges := Some c3\<rparr>) = Some c3" by simp
  from fixpointRound_rounds [OF q, of this "blocksFromCommit w2 this (fst cm)" w2] obtain evs' where
    rec: "events (fst (fixpointRound this (ev1\<lparr>qchanges := Some c3\<rparr>)
             (blocksFromCommit w2 this (fst cm)) w2)) = events w2 @ evs'"
    by blast
  show ?thesis
  proof (cases "fst pass")
    case (Some err)
    then show ?thesis by (simp add: R ev1)
  next
    case None
    show ?thesis
    proof (cases "waitingCount ev1 = Some 0")
      case True
      with None rec show ?thesis by (simp add: R ev2)
    next
      case False
      with None show ?thesis by (simp add: R ev1)
    qed
  qed
qed

lemma fixpointRound_first_event:
  assumes "qchanges evaluation = Some c"
  shows "\<exists>evs. events (fst (fixpointRound this evaluation blockSet w)) = events w @ evs
           \<and> commitsBeforeFirstRound evs = 0"
proof (cases "changed c \<and> round c < MAX_ROUNDS")
  case False
  with assms have R: "fixpointRound this evaluation blockSet w =
      (finishFixpoint this (evaluation\<lparr>waitingCount := Some 0\<rparr>) c w, None)"
    by (subst fixpointRound.simps) auto
  let ?evs = "errorEvents w this c @ map (\<lambda>d. OnFixpointInvoked d this) (databases (evals w this))
                @ (case qcallback evaluation of None \<Rightarrow> [] | Some cb \<Rightarrow> callbackEvents cb c)"
  have "events (fst (fixpointRound this evaluation blockSet w)) = events w @ ?evs"
    by (simp add: R finishFixpoint_frame)
  moreover have "filter isCommitted (takeWhile (\<lambda>e. \<not> isRoundStarted e) ?evs) = []"
    using finishEvents_no_commit [of w this c "databases (evals w this)" "qcallback evaluation"]
    by (metis filter_False filter_empty_conv set_takeWhileD)
  ultimately show ?thesis
    unfolding commitsBeforeFirstRound_def by (metis list.size(3))
next
  case True
  from fixpointRound_first_round [OF assms True, of this blockSet w] obtain evs where
    "events (fst (fixpointRound this evaluation blockSet w)) =
       events w @ RoundStarted this (round c + 1) # evs"
    by blast
  moreover have "commitsBeforeFirstRound (RoundStarted this (round c + 1) # evs) = 0"
    by (simp add: commitsBeforeFirstRound_def)
  ultimately show ?thesis by blast
qed


text \<open>
  C4. When the drain takes an actions item from the queue, the stages of all its actions
  are appended, in order, to the change set of the item; that change set is committed
  once; and \<^verbatim>\<open>fixpoint\<close> is entered with the committed change set and with the block set
  that \<^verbatim>\<open>blocksFromCommit\<close> computes from the delta of that commit. Among the events, the
  commit comes first and no other commit comes before the first round of the fixpoint.
\<close>

theorem actions_item_stages_commits_once_then_fixpoints:
  assumes "evaluationQueue (evals w this) = item # rest"
    and "qtype item = QActions"
    and "qactions item = Some actions"
    and "qchanges item = Some c"
  shows "let w1 = updEval this (\<lambda>self. self\<lparr>evaluationQueue := rest\<rparr>) w;
             view = viewOf w1 (evals w1 this);
             stagedSet = c\<lparr>staged := staged c @ map (entryOf (round c)) (actionStages view actions c)\<rparr>;
             cm = changes_commit (multiIndex (evals w1 this)) stagedSet (dbs w1);
             w2 = emit (Committed this (fst cm)) (w1\<lparr>dbs := snd (snd cm)\<rparr>)
         in processQueueTick this w =
              fixpoint this (fst (snd cm)) (blocksFromCommit w2 this (fst cm))
                (Some (Finished (qcallback item))) w2
          \<and> (\<exists>evs. events (fst (processQueueTick this w)) = events w @ Committed this (fst cm) # evs
                    \<and> commitsBeforeFirstRound evs = 0)"
proof -
  define w1 where "w1 = updEval this (\<lambda>self. self\<lparr>evaluationQueue := rest\<rparr>) w"
  define view where "view = viewOf w1 (evals w1 this)"
  define stagedSet where
    "stagedSet = c\<lparr>staged := staged c @ map (entryOf (round c)) (actionStages view actions c)\<rparr>"
  define cm where "cm = changes_commit (multiIndex (evals w1 this)) stagedSet (dbs w1)"
  define w2 where "w2 = emit (Committed this (fst cm)) (w1\<lparr>dbs := snd (snd cm)\<rparr>)"
  define seed where "seed = \<lparr>qtype = QChanges, qcommit = None, qactions = None,
                   qchanges = Some ((fst (snd cm))\<lparr>changed := True\<rparr>),
                   qcallback = Some (Finished (qcallback item)),
                   waitingFor = None, waitingCount = None\<rparr>"
  have fold: "foldl (\<lambda>c action. stageAll (action view c) c) c actions = stagedSet"
  proof -
    have "stageAll (actionStages view actions c) c = stagedSet"
      by (simp add: stageAll_eq stagedSet_def)
    with actions_fold_eq [of view c actions] show ?thesis by (rule trans)
  qed
  have tick: "processQueueTick this w =
      fixpoint this (fst (snd cm)) (blocksFromCommit w2 this (fst cm))
        (Some (Finished (qcallback item))) w2"
    using assms
    by (simp add: processQueueTick_def Let_def cm_def w2_def fold [symmetric] view_def w1_def)
  have unf: "fixpoint this (fst (snd cm)) (blocksFromCommit w2 this (fst cm))
        (Some (Finished (qcallback item))) w2 =
      fixpointRound this seed (blocksFromCommit w2 this (fst cm)) (setCurrent this (Some seed) w2)"
    by (simp add: fixpoint_def Let_def seed_def)
  have q: "qchanges seed = Some ((fst (snd cm))\<lparr>changed := True\<rparr>)"
    by (simp add: seed_def)
  from fixpointRound_first_event [OF q, of this "blocksFromCommit w2 this (fst cm)"
      "setCurrent this (Some seed) w2"]
  obtain evs where
    e: "events (fst (fixpointRound this seed (blocksFromCommit w2 this (fst cm))
          (setCurrent this (Some seed) w2))) = events (setCurrent this (Some seed) w2) @ evs"
    and n: "commitsBeforeFirstRound evs = 0"
    by blast
  have "events (setCurrent this (Some seed) w2) = events w @ [Committed this (fst cm)]"
    by (simp add: w2_def w1_def)
  with e have "events (fst (processQueueTick this w)) = events w @ Committed this (fst cm) # evs"
    by (simp add: tick unf)
  with n tick show ?thesis
    unfolding Let_def w1_def view_def stagedSet_def cm_def w2_def by blast
qed

section \<open>Programs and runs\<close>

subsection \<open>A database that does not execute\<close>

text \<open>A database flagged \<open>nonExecuting\<close> whose only block matches every change.\<close>

definition alwaysBlock :: block where
  "alwaysBlock = \<lparr>bid = ''always'', dormant = False, remote = False,
     check = (\<lambda>view change tags e a v. True),
     execute = (\<lambda>view c. [])\<rparr>"

definition idleWorld :: world where
  "idleWorld =
     (let w = fst (registerDatabase 0 ''main'' 4 newWorld)
      in w\<lparr>dbs := (dbs w)(4 := (dbs w 4)\<lparr>blocks := [alwaysBlock], nonExecuting := True\<rparr>)\<rparr>)"

definition oneChange :: "jsval list" where
  "oneChange = [Num ''1'', Str ''e1'', Str ''tag'', Str ''t'', Str ''n1'', Num ''0'']"

lemma idleWorld_simps:
  "databases (evals idleWorld 0) = [4]" "nonExecuting (dbs idleWorld 4)"
  "blocks (dbs idleWorld 4) = [alwaysBlock]"
  by (simp_all add: idleWorld_def registerDatabase_def newWorld_def newEvaluation_def
      newDatabase_def register_def Let_def)

text \<open>
  C3 as the specification words it, scanning "each non-executing database", fails: the
  block of a database flagged \<open>nonExecuting\<close> is not dormant and its checker returns true
  for the change, yet \<^verbatim>\<open>blocksFromCommit\<close> does not return it.
\<close>

theorem nonExecuting_database_is_skipped:
  "4 \<in> set (databases (evals idleWorld 0))
   \<and> nonExecuting (dbs idleWorld 4)
   \<and> alwaysBlock \<in> set (blocks (dbs idleWorld 4))
   \<and> \<not> dormant alwaysBlock
   \<and> check alwaysBlock (viewOf idleWorld (evals idleWorld 0)) (Num ''1'') (Tags []) (Str ''e1'') (Str ''tag'') (Str ''t'')
   \<and> blocksFromCommit idleWorld 0 oneChange = []"
  by (simp add: idleWorld_simps blocksFromCommit_def blocksFromCommit_probed_def)
     (simp add: alwaysBlock_def)

subsection \<open>One actions item on the counting program\<close>

text \<open>One action that stages the fact \<open>(e1, n, 0)\<close>, queued on the counting program.\<close>

definition seedAction :: action where
  "seedAction = (\<lambda>view c. [Store ''main'' (Str ''e1'') (Str ''n'') (Num ''0'') (Str ''n1'')])"

definition queuedWorld :: world where
  "queuedWorld = executeActions 0 [seedAction] newChanges (Some (UserCallback 7)) counterWorld"

definition actionsItem :: queuedEvaluation where
  "actionsItem = \<lparr>qtype = QActions, qcommit = None, qactions = Some [seedAction],
                  qchanges = Some newChanges, qcallback = Some (UserCallback 7),
                  waitingFor = Some Map.empty, waitingCount = Some 0\<rparr>"

lemma queuedWorld_queue: "evaluationQueue (evals queuedWorld 0) = [actionsItem]"
  by (simp add: queuedWorld_def executeActions_def queue_def Let_def counterWorld_def
      registerDatabase_def newWorld_def newEvaluation_def actionsItem_def)

lemma counterWorld_simps:
  "multiIndex (evals counterWorld 0) = [(''main'', 3)]"
  "index (dbs counterWorld 3) = []"
  "events counterWorld = []"
  by (simp_all add: counterWorld_def registerDatabase_def newWorld_def newEvaluation_def
      newDatabase_def register_def mi_register_def Let_def)

lemma queuedWorld_simps:
  "events queuedWorld = []" "dbs queuedWorld = dbs counterWorld"
  "multiIndex (evals queuedWorld 0) = [(''main'', 3)]"
  by (simp_all add: queuedWorld_def executeActions_def queue_def Let_def counterWorld_simps)

theorem actions_item_stages_commits_once_then_fixpoints_witness:
  "evaluationQueue (evals queuedWorld 0) = actionsItem # []
   \<and> qtype actionsItem = QActions
   \<and> qactions actionsItem = Some [seedAction]
   \<and> qchanges actionsItem = Some newChanges
   \<and> (\<exists>evs. events (fst (processQueueTick 0 queuedWorld)) =
               Committed 0 [Num ''1'', Str ''e1'', Str ''n'', Num ''0'', Str ''n1'', Num ''0''] # evs
             \<and> commitsBeforeFirstRound evs = 0)"
proof -
  have h1: "evaluationQueue (evals queuedWorld 0) = actionsItem # []"
    by (simp add: queuedWorld_queue)
  have h2: "qtype actionsItem = QActions" and h3: "qactions actionsItem = Some [seedAction]"
    and h4: "qchanges actionsItem = Some newChanges"
    by (simp_all add: actionsItem_def)
  from actions_item_stages_commits_once_then_fixpoints [OF h1 h2 h3 h4, unfolded Let_def, THEN conjunct2]
  have "\<exists>evs. events (fst (processQueueTick 0 queuedWorld)) =
               Committed 0 [Num ''1'', Str ''e1'', Str ''n'', Num ''0'', Str ''n1'', Num ''0''] # evs
             \<and> commitsBeforeFirstRound evs = 0"
    by (simp add: queuedWorld_simps seedAction_def newChanges_def changes_commit_def Let_def
        net_def total_def sameFact_def applyEntry_def counterWorld_simps ti_insert_def
        present_def flatten_def)
  with h1 h2 h3 h4 show ?thesis by blast
qed

subsection \<open>A program with a remote block\<close>

text \<open>A program with one remote block that matches every change, and one item queued
  on it.\<close>

definition remoteBlock :: block where
  "remoteBlock = \<lparr>bid = ''remote1'', dormant = False, remote = True,
     check = (\<lambda>view change tags e a v. True),
     execute = (\<lambda>view c. [])\<rparr>"

definition remoteWorld :: world where
  "remoteWorld =
     (let w = fst (registerDatabase 0 ''main'' 3 newWorld)
      in w\<lparr>dbs := (dbs w)(3 := (dbs w 3)\<lparr>blocks := [remoteBlock]\<rparr>)\<rparr>)"

lemma remoteWorld_simps:
  "multiIndex (evals remoteWorld 0) = [(''main'', 3)]"
  "databases (evals remoteWorld 0) = [3]"
  "index (dbs remoteWorld 3) = []"
  "blocks (dbs remoteWorld 3) = [remoteBlock]"
  "nonExecuting (dbs remoteWorld 3) = False"
  "events remoteWorld = []" "ticks remoteWorld = []"
  "queued (evals remoteWorld 0) = False"
  "currentEvaluation (evals remoteWorld 0) = None"
  "evaluationQueue (evals remoteWorld 0) = []"
  by (simp_all add: remoteWorld_def registerDatabase_def newWorld_def newEvaluation_def
      newDatabase_def register_def mi_register_def Let_def)

definition remoteQueued :: world where
  "remoteQueued = executeActions 0 [seedAction] newChanges (Some (UserCallback 7)) remoteWorld"

lemma remoteQueued_simps:
  "ticks remoteQueued = [0]"
  "events remoteQueued = []"
  "dbs remoteQueued = dbs remoteWorld"
  "evaluationQueue (evals remoteQueued 0) = [actionsItem]"
  "multiIndex (evals remoteQueued 0) = [(''main'', 3)]"
  "databases (evals remoteQueued 0) = [3]"
  "currentEvaluation (evals remoteQueued 0) = None"
  "queued (evals remoteQueued 0) = False"
  by (simp_all add: remoteQueued_def executeActions_def queue_def Let_def remoteWorld_simps
      actionsItem_def processQueue_def)

definition seedDelta :: "jsval list" where
  "seedDelta = [Num ''1'', Str ''e1'', Str ''n'', Num ''0'', Str ''n1'', Num ''0'']"

definition seedCommitted :: changes where
  "seedCommitted = \<lparr>round = 0, changed = True, staged = [],
     committed = [Entry ''main'' (Str ''e1'') (Str ''n'') (Num ''0'') (Str ''n1'') 0 1]\<rparr>"

text \<open>\<^verbatim>\<open>fixpoint\<close> makes its work item without a \<open>waitingFor\<close> map, so the pass over a
  block set with a remote block throws at \<^verbatim>\<open>evaluation.waitingFor[block.id] = true\<close>.\<close>

lemma blockPass_remote_throws:
  assumes "waitingFor item = None" and "\<exists>b \<in> set bs. remote b"
  shows "fst (blockPass view bs item c) = Some TypeError
       \<and> fst (snd (blockPass view bs item c)) = item"
  using assms by (induction view bs item c rule: blockPass.induct) auto

lemma fixpoint_remote_throws:
  assumes "\<exists>b \<in> set blockSet. remote b" and "round c < MAX_ROUNDS"
  shows "snd (fixpoint this c blockSet cb w) = Some TypeError
       \<and> events (fst (fixpoint this c blockSet cb w)) = events w @ [RoundStarted this (round c + 1)]
       \<and> dbs (fst (fixpoint this c blockSet cb w)) = dbs w
       \<and> map_option waitingFor (currentEvaluation (evals (fst (fixpoint this c blockSet cb w)) this))
           = Some None
       \<and> map_option qcallback (currentEvaluation (evals (fst (fixpoint this c blockSet cb w)) this))
           = Some cb"
proof -
  have p: "fst (blockPass V blockSet
              \<lparr>qtype = QChanges, qcommit = None, qactions = None,
                 qchanges = Some (c\<lparr>changed := True\<rparr>), qcallback = cb,
                 waitingFor = None, waitingCount = Some 0\<rparr> C) = Some TypeError
         \<and> fst (snd (blockPass V blockSet
              \<lparr>qtype = QChanges, qcommit = None, qactions = None,
                 qchanges = Some (c\<lparr>changed := True\<rparr>), qcallback = cb,
                 waitingFor = None, waitingCount = Some 0\<rparr> C)) =
              \<lparr>qtype = QChanges, qcommit = None, qactions = None,
                 qchanges = Some (c\<lparr>changed := True\<rparr>), qcallback = cb,
                 waitingFor = None, waitingCount = Some 0\<rparr>" for V C
    using assms(1) by (intro blockPass_remote_throws) simp_all
  show ?thesis
    unfolding fixpoint_def Let_def
    using assms(2)
    by (subst fixpointRound.simps, simp add: Let_def p nextRound_def)+
qed

lemma scan_seed:
  "scanCommit view remoteBlock seedDelta 0 st =
     (True, (fst st)(''e1'' \<mapsto> dangerousMergeLookup view (Str ''e1'') (Str ''tag'')),
      snd st @ [Lookup (Str ''e1''), Check ''remote1'' 0])" if "fst st ''e1'' = None"
  using that
  by (subst scanCommit.simps) (simp add: seedDelta_def Let_def remoteBlock_def nth_js_def)


lemma remote_seed_blocks:
  assumes "databases (evals w 0) = [3]" and "blocks (dbs w 3) = [remoteBlock]"
    and "\<not> nonExecuting (dbs w 3)"
  shows "blocksFromCommit w 0 seedDelta = [remoteBlock]"
  using assms
  by (simp add: blocksFromCommit_def blocksFromCommit_probed_def Let_def scan_seed)
     (simp add: remoteBlock_def)

definition afterSeed :: "world \<Rightarrow> world" where
  "afterSeed w =
     emit (Committed 0 seedDelta)
       ((updEval 0 (\<lambda>self. self\<lparr>evaluationQueue := tl (evaluationQueue self)\<rparr>) (w\<lparr>ticks := tl (ticks w)\<rparr>))
          \<lparr>dbs := (dbs w)(3 := (dbs w 3)\<lparr>index := [(Str ''e1'', Str ''n'', Num ''0'', Str ''n1'')]\<rparr>)\<rparr>)"

lemma remote_tick:
  "runTick remoteQueued =
     fixpoint 0 seedCommitted (blocksFromCommit (afterSeed remoteQueued) 0 seedDelta)
       (Some (Finished (Some (UserCallback 7)))) (afterSeed remoteQueued)"
  by (simp add: runTick_def processQueueTick_def remoteQueued_simps actionsItem_def Let_def
      seedAction_def newChanges_def changes_commit_def net_def total_def sameFact_def
      applyEntry_def remoteWorld_simps ti_insert_def present_def flatten_def stageAll_def
      seedDelta_def seedCommitted_def afterSeed_def updEval_def)

lemma afterSeed_remote:
  "events (afterSeed remoteQueued) = [Committed 0 seedDelta]"
  "databases (evals (afterSeed remoteQueued) 0) = [3]"
  "blocks (dbs (afterSeed remoteQueued) 3) = [remoteBlock]"
  "\<not> nonExecuting (dbs (afterSeed remoteQueued) 3)"
  by (simp_all add: afterSeed_def remoteQueued_simps remoteWorld_simps)

text \<open>
  C5. The claim does not hold of the code at this input. One action is queued on the
  program with the remote block and the drain runs. The seed is committed and round 1
  starts; the block pass then throws a TypeError at the remote block, because the work
  item made by \<^verbatim>\<open>fixpoint\<close> has no \<open>waitingFor\<close> map. \<open>waitingCount\<close> is not
  incremented, the evaluation does not park, and the item stays in the slot.
\<close>

theorem remote_block_pass_throws:
  "snd (runTick remoteQueued) = Some TypeError
   \<and> events (fst (runTick remoteQueued)) = [Committed 0 seedDelta, RoundStarted 0 1]
   \<and> map_option waitingFor (currentEvaluation (evals (fst (runTick remoteQueued)) 0)) = Some None"
proof -
  have b: "blocksFromCommit (afterSeed remoteQueued) 0 seedDelta = [remoteBlock]"
    using afterSeed_remote(2-4) by (rule remote_seed_blocks)
  have "\<exists>b \<in> set [remoteBlock]. remote b" by (simp add: remoteBlock_def)
  moreover have "round seedCommitted < MAX_ROUNDS" by (simp add: seedCommitted_def MAX_ROUNDS_def)
  ultimately show ?thesis
    using fixpoint_remote_throws [of "[remoteBlock]" seedCommitted 0
        "Some (Finished (Some (UserCallback 7)))" "afterSeed remoteQueued"]
    by (simp add: remote_tick b afterSeed_remote seedCommitted_def)
qed


text \<open>A second slip shows once a work item does have a \<open>waitingFor\<close> map. The
  assignment \<^verbatim>\<open>evaluation.waitingFor[blockId] = false\<close> of \<^verbatim>\<open>onRemoteChanges\<close> comes after
  the driver has resumed. When the resumed round executes the same remote block again,
  the block is awaited again, and the assignment then marks it as not awaited: the
  counter says one block is awaited, the map says none is, and the delivery for the
  block will be refused.\<close>

lemma fixpointRound_parks:
  assumes "qchanges item = Some c" and "changed c" and "round c < MAX_ROUNDS"
    and "waitingFor item = Some m"
  shows "fixpointRound this item [remoteBlock] w =
     (setCurrent this
        (Some (item\<lparr>waitingFor := Some (m(''remote1'' \<mapsto> True)), waitingCount := Some 1,
                      qchanges := Some (nextRound c)\<rparr>))
        (emit (RoundStarted this (round c + 1)) w), None)"
  using assms
  by (subst fixpointRound.simps)
     (simp add: Let_def remoteBlock_def stageAll_def nextRound_def)

definition remoteParked :: world where
  "remoteParked = setCurrent 0 (Some parkedItem) remoteWorld"

definition afterDelivery :: world where
  "afterDelivery = fst (onRemoteChanges 0 ''remote1'' delivered remoteParked)"

lemma resumed_remote_block_is_unmarked:
  "snd (onRemoteChanges 0 ''remote1'' delivered remoteParked) = None
   \<and> map_option waitingCount (currentEvaluation (evals afterDelivery 0)) = Some (Some 1)
   \<and> map_option (\<lambda>item. map_option (\<lambda>m. m ''remote1'') (waitingFor item))
        (currentEvaluation (evals afterDelivery 0)) = Some (Some (Some False))
   \<and> \<not> awaited afterDelivery 0 ''remote1''"
proof -
  define c where "c = \<lparr>round = 1, changed = True, staged = [],
     committed = [Entry ''main'' (Str ''e1'') (Str ''n'') (Num ''0'') (Str ''n1'') 0 1]\<rparr>"
  define item2 where "item2 = parkedItem\<lparr>qchanges := Some c, waitingCount := Some 0\<rparr>"
  define w1 where "w1 = emit (Committed 0 seedDelta)
     (remoteParked\<lparr>dbs := (dbs remoteWorld)(3 := (dbs remoteWorld 3)
        \<lparr>index := [(Str ''e1'', Str ''n'', Num ''0'', Str ''n1'')]\<rparr>)\<rparr>)"
  have w1: "databases (evals w1 0) = [3]" "blocks (dbs w1 3) = [remoteBlock]"
    "\<not> nonExecuting (dbs w1 3)"
    by (simp_all add: w1_def remoteParked_def setCurrent_def remoteWorld_simps)
  have b: "blocksFromCommit w1 0 seedDelta = [remoteBlock]"
    using w1 by (rule remote_seed_blocks)
  have q: "qchanges item2 = Some c" "changed c" "round c < MAX_ROUNDS"
    "waitingFor item2 = Some [''remote1'' \<mapsto> True]"
    by (simp_all add: item2_def c_def parkedItem_def MAX_ROUNDS_def)
  have step: "onRemoteChanges 0 ''remote1'' delivered remoteParked =
      (case snd (fixpointRound 0 item2 (blocksFromCommit w1 0 seedDelta) (setCurrent 0 (Some item2) w1)) of
         Some err \<Rightarrow> fixpointRound 0 item2 (blocksFromCommit w1 0 seedDelta) (setCurrent 0 (Some item2) w1)
       | None \<Rightarrow> (markDelivered 0 ''remote1''
            (fst (fixpointRound 0 item2 (blocksFromCommit w1 0 seedDelta) (setCurrent 0 (Some item2) w1))), None))"
    by (simp add: onRemoteChanges_def remoteParked_def parkedItem_def delivered_def newChanges_def
        mergeRound_def Let_def changes_commit_def net_def total_def sameFact_def applyEntry_def
        remoteWorld_simps ti_insert_def present_def flatten_def seedDelta_def
        item2_def c_def w1_def setCurrent_def truthy_def cong: option.case_cong)
  show ?thesis
    unfolding afterDelivery_def step b fixpointRound_parks [OF q]
    by (simp add: markDelivered_def awaited_def item2_def parkedItem_def setCurrent_def)
qed

section \<open>One item at a time, in the order of the queue\<close>

text \<open>What a call leaves alone of the slots \<open>currentEvaluation\<close>: \<^verbatim>\<open>queue\<close>, the
  fixpoint hook and a callback touch none, and the end of a fixpoint only empties the
  slot of its own evaluation.\<close>

lemma queue_current:
  "currentEvaluation (evals (queue t item w) e) = currentEvaluation (evals w e)"
  by (simp add: queue_frame)

lemma notify_fold_current:
  "currentEvaluation (evals (foldl (\<lambda>w' e. if e \<noteq> cur then queue e item w' else w') w es) e) =
     currentEvaluation (evals w e)"
  by (induction es arbitrary: w) (simp_all add: queue_current)

lemma onFixpoint_current:
  "currentEvaluation (evals (onFixpoint d cur c w) e) = currentEvaluation (evals w e)"
  by (simp add: onFixpoint_def Let_def notify_fold_current)

lemma hooks_fold_current:
  "currentEvaluation (evals (foldl (\<lambda>w' d. onFixpoint d cur c (emit (OnFixpointInvoked d cur) w')) w ds) e) =
     currentEvaluation (evals w e)"
  by (induction ds arbitrary: w) (simp_all add: onFixpoint_current)

lemma invokeCallback_current:
  "currentEvaluation (evals (invokeCallback t cb c w) e) = currentEvaluation (evals w e)"
  by (induction t cb c w rule: invokeCallback.induct) (auto simp: Let_def split: option.splits)

lemma finishFixpoint_others:
  "e \<noteq> t \<Longrightarrow> currentEvaluation (evals (finishFixpoint t item c w) e) = currentEvaluation (evals w e)"
  by (simp add: finishFixpoint_def Let_def setCurrent_def invokeCallback_current hooks_fold_current
      evaluation_error_frame split: option.splits)

lemma notifications_self: "notifications w t c t = []"
  by (simp add: notifications_def notice_def)

text \<open>The block pass does not touch a work item that has no \<open>waitingFor\<close> map: it
  passes over the local blocks and throws at the first remote one.\<close>

lemma blockPass_no_map:
  "waitingFor item = None \<Longrightarrow> fst (snd (blockPass view bs item c)) = item"
  by (induction view bs item c rule: blockPass.induct) simp_all

text \<open>An evaluation is resumable when its slot holds a work item with a \<open>waitingFor\<close>
  map: only then can \<^verbatim>\<open>onRemoteChanges\<close> take the item up again.\<close>

definition resumable :: "world \<Rightarrow> evalRef \<Rightarrow> bool" where
  "resumable w e =
     (case currentEvaluation (evals w e) of
        None \<Rightarrow> False
      | Some item \<Rightarrow> waitingFor item \<noteq> None)"

text \<open>So the driver, started on a work item without a \<open>waitingFor\<close> map, never
  parks: when it returns without an error the fixpoint has ended, the slot is empty,
  and the last thing it did was to call the callback of the item; when it throws, the
  item it leaves in the slot has no \<open>waitingFor\<close> map. It leaves the queue of its
  evaluation and the slots of the other evaluations as they were.\<close>

lemma fixpointRound_unparked:
  assumes "qchanges evaluation = Some c" and "waitingFor evaluation = None"
  shows "evaluationQueue (evals (fst (fixpointRound this evaluation blockSet w)) this) =
           evaluationQueue (evals w this)
     \<and> (\<forall>e. e \<noteq> this \<longrightarrow>
           currentEvaluation (evals (fst (fixpointRound this evaluation blockSet w)) e) =
             currentEvaluation (evals w e))
     \<and> (snd (fixpointRound this evaluation blockSet w) = None \<longrightarrow>
           currentEvaluation (evals (fst (fixpointRound this evaluation blockSet w)) this) = None
           \<and> (\<exists>evs c'. events (fst (fixpointRound this evaluation blockSet w)) =
                 events w @ evs @ (case qcallback evaluation of None \<Rightarrow> []
                                   | Some cb \<Rightarrow> callbackEvents cb c')))
     \<and> \<not> resumable (fst (fixpointRound this evaluation blockSet w)) this"
  using assms
proof (induction "MAX_ROUNDS - round c" arbitrary: evaluation c blockSet w rule: less_induct)
  case less
  let ?R = "fixpointRound this evaluation blockSet w"
  show ?case
  proof (cases "changed c \<and> round c < MAX_ROUNDS")
    case False
    with less.prems have R: "?R = (finishFixpoint this (evaluation\<lparr>waitingCount := Some 0\<rparr>) c w, None)"
      by (subst fixpointRound.simps) auto
    have "events (fst ?R) = events w
        @ (errorEvents w this c @ map (\<lambda>d. OnFixpointInvoked d this) (databases (evals w this)))
        @ (case qcallback evaluation of None \<Rightarrow> [] | Some cb \<Rightarrow> callbackEvents cb c)"
      by (simp add: R finishFixpoint_frame)
    then have "\<exists>evs c'. events (fst ?R) =
        events w @ evs @ (case qcallback evaluation of None \<Rightarrow> [] | Some cb \<Rightarrow> callbackEvents cb c')"
      by blast
    then show ?thesis
      by (simp add: R finishFixpoint_queue notifications_self finishFixpoint_others
          finishFixpoint_frame resumable_def)
  next
    case True
    define c1 where "c1 = nextRound c"
    define w1 where "w1 = emit (RoundStarted this (round c1)) w"
    define pass where "pass = blockPass (viewOf w1 (evals w1 this)) blockSet
                                (evaluation\<lparr>waitingCount := Some 0\<rparr>) c1"
    define ev1 where "ev1 = fst (snd pass)"
    define c2 where "c2 = snd (snd pass)"
    define cm where "cm = changes_commit (multiIndex (evals w1 this)) c2 (dbs w1)"
    define w2 where "w2 = emit (Committed this (fst cm)) (w1\<lparr>dbs := snd (snd cm)\<rparr>)"
    define c3 where "c3 = fst (snd cm)"
    have R: "?R = (case fst pass of
                     Some err \<Rightarrow> (setCurrent this (Some (ev1\<lparr>qchanges := Some c2\<rparr>)) w1, Some err)
                   | None \<Rightarrow>
                       if waitingCount ev1 = Some 0
                       then fixpointRound this (ev1\<lparr>qchanges := Some c3\<rparr>)
                              (blocksFromCommit w2 this (fst cm)) w2
                       else (setCurrent this (Some (ev1\<lparr>qchanges := Some c2\<rparr>)) w1, None))"
      using True less.prems
      by (subst fixpointRound.simps)
         (simp add: Let_def c1_def w1_def pass_def ev1_def c2_def cm_def w2_def c3_def
            cong: option.case_cong if_cong)
    have ev1: "ev1 = evaluation\<lparr>waitingCount := Some 0\<rparr>"
      using less.prems(2) by (simp add: ev1_def pass_def blockPass_no_map)
    have rc3: "round c3 = round c + 1"
      by (simp add: c3_def cm_def c2_def pass_def round_changes_commit round_blockPass c1_def
          nextRound_def)
    have same1: "evals w1 = evals w" and same2: "evals w2 = evals w"
      by (simp_all add: w2_def w1_def)
    have events2: "events w2 = events w @ [RoundStarted this (round c + 1), Committed this (fst cm)]"
      by (simp add: w2_def w1_def c1_def nextRound_def)
    show ?thesis
    proof (cases "fst pass")
      case (Some err)
      then have "?R = (setCurrent this (Some (ev1\<lparr>qchanges := Some c2\<rparr>)) w1, Some err)"
        by (simp add: R)
      then show ?thesis
        using less.prems(2) by (simp add: setCurrent_def same1 resumable_def ev1)
    next
      case None
      let ?item = "ev1\<lparr>qchanges := Some c3\<rparr>"
      let ?bs = "blocksFromCommit w2 this (fst cm)"
      from None have R': "?R = fixpointRound this ?item ?bs w2"
        by (simp add: R ev1)
      have less': "MAX_ROUNDS - round c3 < MAX_ROUNDS - round c"
        using True rc3 by linarith
      have q: "qchanges ?item = Some c3" "waitingFor ?item = None"
        using less.prems(2) by (simp_all add: ev1)
      have cb: "qcallback ?item = qcallback evaluation"
        by (simp add: ev1)
      from less.hyps [OF less' q, of ?bs w2]
      have IH1: "evaluationQueue (evals (fst ?R) this) = evaluationQueue (evals w this)"
        and IH2: "\<forall>e. e \<noteq> this \<longrightarrow> currentEvaluation (evals (fst ?R) e) = currentEvaluation (evals w e)"
        and IH3: "snd ?R = None \<longrightarrow>
           currentEvaluation (evals (fst ?R) this) = None
           \<and> (\<exists>evs c'. events (fst ?R) =
                 events w2 @ evs @ (case qcallback evaluation of None \<Rightarrow> []
                                    | Some cb \<Rightarrow> callbackEvents cb c'))"
        and IH4: "\<not> resumable (fst ?R) this"
        unfolding R' cb same2 by blast+
      have "\<exists>evs c'. events (fst ?R) =
                 events w @ evs @ (case qcallback evaluation of None \<Rightarrow> []
                                   | Some cb \<Rightarrow> callbackEvents cb c')"
        if "snd ?R = None"
      proof -
        from IH3 that obtain evs c' where
          "events (fst ?R) = events w2 @ evs @ (case qcallback evaluation of None \<Rightarrow> []
                                                 | Some cb \<Rightarrow> callbackEvents cb c')"
          by blast
        then have "events (fst ?R) =
            events w @ ([RoundStarted this (round c + 1), Committed this (fst cm)] @ evs)
              @ (case qcallback evaluation of None \<Rightarrow> [] | Some cb \<Rightarrow> callbackEvents cb c')"
          by (simp add: events2)
        then show ?thesis by blast
      qed
      with IH1 IH2 IH3 IH4 show ?thesis by blast
    qed
  qed
qed

text \<open>\<^verbatim>\<open>fixpoint\<close> makes such a work item, so the same holds of it.\<close>

lemma fixpoint_unparked:
  "evaluationQueue (evals (fst (fixpoint this c blockSet cb w)) this) = evaluationQueue (evals w this)
   \<and> (\<forall>e. e \<noteq> this \<longrightarrow>
         currentEvaluation (evals (fst (fixpoint this c blockSet cb w)) e) = currentEvaluation (evals w e))
   \<and> (snd (fixpoint this c blockSet cb w) = None \<longrightarrow>
         currentEvaluation (evals (fst (fixpoint this c blockSet cb w)) this) = None
         \<and> (\<exists>evs c'. events (fst (fixpoint this c blockSet cb w)) =
               events w @ evs @ (case cb of None \<Rightarrow> [] | Some f \<Rightarrow> callbackEvents f c')))
   \<and> \<not> resumable (fst (fixpoint this c blockSet cb w)) this"
proof -
  define item where "item = \<lparr>qtype = QChanges, qcommit = None, qactions = None,
                   qchanges = Some (c\<lparr>changed := True\<rparr>), qcallback = cb,
                   waitingFor = None, waitingCount = None\<rparr>"
  have f: "fixpoint this c blockSet cb w =
      fixpointRound this item blockSet (setCurrent this (Some item) w)"
    by (simp add: fixpoint_def Let_def item_def)
  have q: "qchanges item = Some (c\<lparr>changed := True\<rparr>)" "waitingFor item = None"
    by (simp_all add: item_def)
  have s: "evaluationQueue (evals (setCurrent this (Some item) w) this) = evaluationQueue (evals w this)"
    "\<And>e. e \<noteq> this \<Longrightarrow> currentEvaluation (evals (setCurrent this (Some item) w) e) =
        currentEvaluation (evals w e)"
    "events (setCurrent this (Some item) w) = events w"
    "qcallback item = cb"
    by (simp_all add: setCurrent_def item_def)
  from fixpointRound_unparked [OF q, of this blockSet "setCurrent this (Some item) w"]
  show ?thesis
    unfolding f s(1) s(3) s(4) using s(2) by auto
qed

text \<open>What one drain does to the queue, to the slots and to the events.\<close>

lemma processQueueTick_head:
  assumes "evaluationQueue (evals w this) = oldest # rest"
  shows "evaluationQueue (evals (fst (processQueueTick this w)) this) = rest
     \<and> (\<forall>e. e \<noteq> this \<longrightarrow>
           currentEvaluation (evals (fst (processQueueTick this w)) e) = currentEvaluation (evals w e))
     \<and> (snd (processQueueTick this w) = None \<and> qtype oldest \<noteq> QChanges \<longrightarrow>
           currentEvaluation (evals (fst (processQueueTick this w)) this) = None
           \<and> (\<exists>evs c. events (fst (processQueueTick this w)) =
                 events w @ evs @ callbackEvents (Finished (qcallback oldest)) c))
     \<and> (\<not> resumable w this \<longrightarrow> \<not> resumable (fst (processQueueTick this w)) this)"
proof -
  define w1 where "w1 = updEval this (\<lambda>self. self\<lparr>evaluationQueue := rest\<rparr>) w"
  have w1: "evaluationQueue (evals w1 this) = rest" "events w1 = events w"
    "\<And>e. currentEvaluation (evals w1 e) = currentEvaluation (evals w e)"
    by (simp_all add: w1_def)
  show ?thesis
  proof (cases "qtype oldest")
    case QChanges
    with assms show ?thesis
      by (simp add: processQueueTick_def Let_def resumable_def)
  next
    case QCommit
    show ?thesis
    proof (cases "qcommit oldest")
      case None
      with QCommit assms show ?thesis
        by (simp add: processQueueTick_def Let_def resumable_def)
    next
      case (Some commits)
      with QCommit assms have t: "processQueueTick this w =
          fixpoint this newChanges (blocksFromCommit w1 this commits)
            (Some (Finished (qcallback oldest))) w1"
        by (simp add: processQueueTick_def Let_def w1_def)
      from fixpoint_unparked [of this newChanges "blocksFromCommit w1 this commits"
          "Some (Finished (qcallback oldest))" w1]
      show ?thesis
        unfolding t by (simp add: w1)
    qed
  next
    case QActions
    show ?thesis
    proof (cases "qactions oldest")
      case None
      with QActions assms show ?thesis
        by (simp add: processQueueTick_def Let_def resumable_def)
    next
      case actions: (Some actions)
      show ?thesis
      proof (cases "qchanges oldest")
        case None
        with QActions actions assms show ?thesis
          by (simp add: processQueueTick_def Let_def resumable_def)
      next
        case (Some changes)
        define changes1 where "changes1 =
          foldl (\<lambda>c action. stageAll (action (viewOf w1 (evals w1 this)) c) c) changes actions"
        define cm where "cm = changes_commit (multiIndex (evals w1 this)) changes1 (dbs w1)"
        define w2 where "w2 = emit (Committed this (fst cm)) (w1\<lparr>dbs := snd (snd cm)\<rparr>)"
        have w2: "evaluationQueue (evals w2 this) = rest"
          "events w2 = events w @ [Committed this (fst cm)]"
          "\<And>e. currentEvaluation (evals w2 e) = currentEvaluation (evals w e)"
          by (simp_all add: w2_def w1)
        from QActions actions Some assms have t: "processQueueTick this w =
            fixpoint this (fst (snd cm)) (blocksFromCommit w2 this (fst cm))
              (Some (Finished (qcallback oldest))) w2"
          by (simp add: processQueueTick_def Let_def w1_def changes1_def cm_def w2_def)
        let ?F = "fixpoint this (fst (snd cm)) (blocksFromCommit w2 this (fst cm))
              (Some (Finished (qcallback oldest))) w2"
        from fixpoint_unparked [of this "fst (snd cm)" "blocksFromCommit w2 this (fst cm)"
            "Some (Finished (qcallback oldest))" w2]
        have 1: "evaluationQueue (evals (fst ?F) this) = rest"
          and 2: "\<forall>e. e \<noteq> this \<longrightarrow> currentEvaluation (evals (fst ?F) e) = currentEvaluation (evals w e)"
          and 3: "snd ?F = None \<longrightarrow> currentEvaluation (evals (fst ?F) this) = None
             \<and> (\<exists>evs c'. events (fst ?F) =
                   events w @ [Committed this (fst cm)] @ evs
                     @ callbackEvents (Finished (qcallback oldest)) c')"
          and 4: "\<not> resumable (fst ?F) this"
          by (simp_all add: w2)
        have "\<exists>evs c. events (fst ?F) = events w @ evs @ callbackEvents (Finished (qcallback oldest)) c"
          if "snd ?F = None"
        proof -
          from 3 that obtain evs c' where
            "events (fst ?F) = events w @ ([Committed this (fst cm)] @ evs)
                     @ callbackEvents (Finished (qcallback oldest)) c'"
            by auto
          then show ?thesis by blast
        qed
        with 1 2 3 4 show ?thesis
          unfolding t by blast
      qed
    qed
  qed
qed

text \<open>
  C6. Within an evaluation one work item is in progress at a time, and the items are
  taken in the order in which they were queued. \<^verbatim>\<open>queue\<close> puts the item at the end of
  the queue, touches no slot \<open>currentEvaluation\<close>, and schedules no drain while an item
  is in the slot. A drain takes the oldest item off the queue and leaves the rest as it
  is; when it returns without an error and the item was a commit or an actions item, the
  callback of that item has been called last. A step of the event loop that returns
  without an error leaves empty every slot that was empty before it: the item it
  started is not in progress any more, so every drain starts with no item in progress.
  No item ever waits in a slot to be taken up again: when no evaluation is resumable,
  none is after a call of \<^verbatim>\<open>queue\<close>, after a step of the event loop, after a call of
  \<^verbatim>\<open>fixpoint\<close> or of \<^verbatim>\<open>registerDatabase\<close>, whether or not the call throws, and a
  delivery of remote changes is refused and changes nothing. That covers the programs
  with remote blocks: a work item that a drain starts cannot suspend on one, see C5,
  and what a drain that throws leaves in the slot is never run again.
\<close>

theorem one_item_at_a_time_in_enqueue_order:
  "evaluationQueue (evals (queue this item w) this) = evaluationQueue (evals w this) @ [enqueued item]
   \<and> (\<forall>e. currentEvaluation (evals (queue this item w) e) = currentEvaluation (evals w e))
   \<and> (currentEvaluation (evals w this) \<noteq> None \<longrightarrow> ticks (queue this item w) = ticks w)
   \<and> (evaluationQueue (evals w this) = oldest # rest \<longrightarrow>
        evaluationQueue (evals (fst (processQueueTick this w)) this) = rest
        \<and> (snd (processQueueTick this w) = None \<and> qtype oldest \<noteq> QChanges \<longrightarrow>
             (\<exists>evs c. events (fst (processQueueTick this w)) =
                        events w @ evs @ callbackEvents (Finished (qcallback oldest)) c)))
   \<and> (\<forall>e. currentEvaluation (evals w e) = None \<and> snd (runTick w) = None \<longrightarrow>
            currentEvaluation (evals (fst (runTick w)) e) = None)
   \<and> ((\<forall>e. \<not> resumable w e) \<longrightarrow>
        (\<forall>e. \<not> resumable (queue this item w) e)
        \<and> (\<forall>e. \<not> resumable (fst (runTick w)) e)
        \<and> (\<forall>e. \<not> resumable (fst (fixpoint this changes blockSet callback w)) e)
        \<and> (\<forall>e. \<not> resumable (fst (registerDatabase this name db w)) e)
        \<and> onRemoteChanges this blockId delivery w = (w, Some TypeError))"
proof -
  have a: "evaluationQueue (evals (queue this item w) this) =
             evaluationQueue (evals w this) @ [enqueued item]"
    by (simp add: queue_frame)
  have b: "\<forall>e. currentEvaluation (evals (queue this item w) e) = currentEvaluation (evals w e)"
    by (simp add: queue_current)
  have c: "currentEvaluation (evals w this) \<noteq> None \<longrightarrow> ticks (queue this item w) = ticks w"
    by (simp add: queue_def Let_def)
  have d: "evaluationQueue (evals w this) = oldest # rest \<longrightarrow>
        evaluationQueue (evals (fst (processQueueTick this w)) this) = rest
        \<and> (snd (processQueueTick this w) = None \<and> qtype oldest \<noteq> QChanges \<longrightarrow>
             (\<exists>evs c. events (fst (processQueueTick this w)) =
                        events w @ evs @ callbackEvents (Finished (qcallback oldest)) c))"
    using processQueueTick_head [of w this oldest rest] by blast
  have e: "currentEvaluation (evals (fst (runTick w)) e) = None"
    if idle: "currentEvaluation (evals w e) = None" and ok: "snd (runTick w) = None" for e
  proof (cases "ticks w")
    case Nil
    with idle show ?thesis by (simp add: runTick_def)
  next
    case (Cons t ts)
    define w0 where "w0 = w\<lparr>ticks := ts\<rparr>"
    from Cons have r: "runTick w = processQueueTick t w0"
      by (simp add: runTick_def w0_def)
    have idle0: "currentEvaluation (evals w0 e) = None"
      using idle by (simp add: w0_def)
    show ?thesis
    proof (cases "evaluationQueue (evals w0 t)")
      case Nil
      with idle0 show ?thesis by (simp add: r processQueueTick_def)
    next
      case (Cons first others)
      note h = processQueueTick_head [OF Cons]
      show ?thesis
      proof (cases "e = t")
        case False
        with h idle0 show ?thesis by (simp add: r)
      next
        case True
        show ?thesis
        proof (cases "qtype first = QChanges")
          case True
          with Cons idle0 \<open>e = t\<close> show ?thesis
            by (simp add: r processQueueTick_def Let_def)
        next
          case False
          with h ok \<open>e = t\<close> show ?thesis by (simp add: r)
        qed
      qed
    qed
  qed
  have f: "(\<forall>e. \<not> resumable (queue this item w) e)
        \<and> (\<forall>e. \<not> resumable (fst (runTick w)) e)
        \<and> (\<forall>e. \<not> resumable (fst (fixpoint this changes blockSet callback w)) e)
        \<and> (\<forall>e. \<not> resumable (fst (registerDatabase this name db w)) e)
        \<and> onRemoteChanges this blockId delivery w = (w, Some TypeError)"
    if none: "\<forall>e. \<not> resumable w e"
  proof -
    have 1: "\<not> resumable (queue this item w) e" for e
      using none by (simp add: resumable_def queue_current)
    have 2: "\<not> resumable (fst (runTick w)) e" for e
    proof (cases "ticks w")
      case Nil
      with none show ?thesis by (simp add: runTick_def)
    next
      case (Cons t ts)
      define w0 where "w0 = w\<lparr>ticks := ts\<rparr>"
      from Cons have r: "runTick w = processQueueTick t w0"
        by (simp add: runTick_def w0_def)
      have none0: "\<not> resumable w0 e'" for e'
        using none by (simp add: w0_def resumable_def)
      show ?thesis
      proof (cases "evaluationQueue (evals w0 t)")
        case Nil
        with none0 show ?thesis by (simp add: r processQueueTick_def)
      next
        case (Cons first others)
        note h = processQueueTick_head [OF Cons]
        show ?thesis
        proof (cases "e = t")
          case False
          with h none0 [of e] show ?thesis by (simp add: r resumable_def)
        next
          case True
          with h none0 [of t] show ?thesis by (simp add: r)
        qed
      qed
    qed
    have 3: "\<not> resumable (fst (fixpoint this changes blockSet callback w)) e" for e
    proof (cases "e = this")
      case True
      with fixpoint_unparked [of this changes blockSet callback w] show ?thesis by simp
    next
      case False
      with fixpoint_unparked [of this changes blockSet callback w] none show ?thesis
        by (simp add: resumable_def)
    qed
    have 4: "\<not> resumable (fst (registerDatabase this name db w)) e" for e
      using none by (simp add: registerDatabase_def Let_def resumable_def)
    have 5: "onRemoteChanges this blockId delivery w = (w, Some TypeError)"
      using none by (auto simp: onRemoteChanges_def resumable_def split: option.splits)
    from 1 2 3 4 5 show ?thesis by blast
  qed
  from a b c d e f show ?thesis by blast
qed

subsection \<open>Two items queued in one turn\<close>

text \<open>A program without blocks, and two actions items queued on it in one turn: the
  first stages a fact and has the callback 7, the second has no actions and has the
  callback 8.\<close>

definition plainWorld :: world where
  "plainWorld = fst (registerDatabase 0 ''main'' 3 newWorld)"

definition twoQueued :: world where
  "twoQueued = executeActions 0 [] newChanges (Some (UserCallback 8))
                 (executeActions 0 [seedAction] newChanges (Some (UserCallback 7)) plainWorld)"

definition secondItem :: queuedEvaluation where
  "secondItem = \<lparr>qtype = QActions, qcommit = None, qactions = Some [],
                  qchanges = Some newChanges, qcallback = Some (UserCallback 8),
                  waitingFor = Some Map.empty, waitingCount = Some 0\<rparr>"

lemma plainWorld_simps:
  "multiIndex (evals plainWorld 0) = [(''main'', 3)]"
  "databases (evals plainWorld 0) = [3]"
  "index (dbs plainWorld 3) = []"
  "blocks (dbs plainWorld 3) = []"
  "events plainWorld = []" "ticks plainWorld = []"
  "queued (evals plainWorld 0) = False"
  "currentEvaluation (evals plainWorld 0) = None"
  "evaluationQueue (evals plainWorld 0) = []"
  "errorReporter (evals plainWorld 0) = None"
  by (simp_all add: plainWorld_def registerDatabase_def newWorld_def newEvaluation_def
      newDatabase_def register_def mi_register_def Let_def)

lemma twoQueued_simps:
  "ticks twoQueued = [0, 0]"
  "events twoQueued = []"
  "dbs twoQueued = dbs plainWorld"
  "evaluationQueue (evals twoQueued 0) = [actionsItem, secondItem]"
  "multiIndex (evals twoQueued 0) = [(''main'', 3)]"
  "databases (evals twoQueued 0) = [3]"
  "errorReporter (evals twoQueued 0) = None"
  "currentEvaluation (evals twoQueued 0) = None"
  by (simp_all add: twoQueued_def executeActions_def queue_def Let_def plainWorld_simps
      actionsItem_def secondItem_def processQueue_def)

lemma scan_empty: "scanCommit view b [] 0 st = (False, st)"
  by (subst scanCommit.simps) simp

lemma scanBlocks_empty: "scanBlocks view [] bs st = st"
  by (induction bs arbitrary: st) (simp_all add: scan_empty)

lemma scanDatabases_empty: "scanDatabases store view [] ds st = st"
  by (induction ds arbitrary: st) (simp_all add: scanBlocks_empty)

lemma blocksFromCommit_empty: "blocksFromCommit w this [] = []"
  by (simp add: blocksFromCommit_def blocksFromCommit_probed_def scanDatabases_empty)

lemma changes_commit_empty:
  "staged c = [] \<Longrightarrow> changes_commit mi c store = ([], c\<lparr>changed := False\<rparr>, store)"
  by (cases c) (simp add: changes_commit_def net_def flatten_def)

lemma fixpointRound_quiet:
  assumes "qchanges item = Some c" and "changed c" and "round c < MAX_ROUNDS" and "staged c = []"
  shows "snd (fixpointRound this item [] w) = None"
proof -
  define w2 where "w2 = emit (Committed this []) (emit (RoundStarted this (round (nextRound c))) w)"
  define item2 where "item2 = item\<lparr>waitingCount := Some 0, qchanges := Some (nextRound c)\<rparr>"
  have st: "staged (nextRound c) = []" by (simp add: nextRound_def assms(4))
  have same: "(nextRound c)\<lparr>changed := False\<rparr> = nextRound c" by (simp add: nextRound_def)
  have w2': "emit (Committed this []) (emit (RoundStarted this (round (nextRound c))) w\<lparr>dbs := dbs w\<rparr>) = w2"
    by (simp add: w2_def emit_def)
  have 1: "fixpointRound this item [] w = fixpointRound this item2 [] w2"
    using assms(1-3)
    by (subst fixpointRound.simps)
       (simp add: Let_def changes_commit_empty [OF st] same blocksFromCommit_empty w2' item2_def)
  have 2: "fixpointRound this item2 [] w2 =
      (finishFixpoint this (item2\<lparr>waitingCount := Some 0\<rparr>) (nextRound c) w2, None)"
    by (subst fixpointRound.simps) (simp add: item2_def nextRound_def)
  show ?thesis
    unfolding 1 2 by simp
qed

lemma first_drain_returns: "snd (runTick twoQueued) = None"
proof -
  define seed where "seed = \<lparr>qtype = QChanges, qcommit = None, qactions = None,
                   qchanges = Some seedCommitted,
                   qcallback = Some (Finished (Some (UserCallback 7))),
                   waitingFor = None, waitingCount = None\<rparr>"
  have b: "blocksFromCommit w 0 commit = []"
    if "databases (evals w 0) = [3]" "blocks (dbs w 3) = []" for w commit
    using that by (simp add: blocksFromCommit_def blocksFromCommit_probed_def)
  have "\<exists>w. runTick twoQueued = fixpointRound 0 seed [] w"
    by (simp add: runTick_def processQueueTick_def twoQueued_simps actionsItem_def Let_def
        seedAction_def newChanges_def changes_commit_def net_def total_def sameFact_def
        applyEntry_def plainWorld_simps ti_insert_def present_def flatten_def stageAll_def
        seedCommitted_def fixpoint_def seed_def b)
       (rule exI, rule refl)
  then obtain w where t: "runTick twoQueued = fixpointRound 0 seed [] w" by blast
  have q: "qchanges seed = Some seedCommitted" "changed seedCommitted"
    "round seedCommitted < MAX_ROUNDS" "staged seedCommitted = []"
    by (simp_all add: seed_def seedCommitted_def MAX_ROUNDS_def)
  from fixpointRound_quiet [OF q, of 0 w] show ?thesis
    by (simp add: t)
qed

theorem one_item_at_a_time_in_enqueue_order_witness:
  "evaluationQueue (evals twoQueued 0) = actionsItem # [secondItem]
   \<and> qtype actionsItem \<noteq> QChanges
   \<and> (\<forall>e. currentEvaluation (evals twoQueued e) = None)
   \<and> (\<forall>e. \<not> resumable twoQueued e)
   \<and> snd (runTick twoQueued) = None
   \<and> evaluationQueue (evals (fst (runTick twoQueued)) 0) = [secondItem]
   \<and> (\<forall>e. currentEvaluation (evals (fst (runTick twoQueued)) e) = None)
   \<and> (\<forall>e. \<not> resumable (fst (runTick twoQueued)) e)
   \<and> (\<exists>evs c. events (fst (runTick twoQueued)) = evs @ [CallbackInvoked 7 c])"
proof -
  define w0 where "w0 = twoQueued\<lparr>ticks := [0]\<rparr>"
  have r: "runTick twoQueued = processQueueTick 0 w0"
    by (simp add: runTick_def twoQueued_simps w0_def)
  have h1: "evaluationQueue (evals twoQueued 0) = actionsItem # [secondItem]"
    and h2: "qtype actionsItem \<noteq> QChanges"
    by (simp_all add: twoQueued_simps actionsItem_def)
  have h3: "\<forall>e. currentEvaluation (evals twoQueued e) = None"
    by (simp add: twoQueued_def executeActions_def queue_def Let_def plainWorld_def
        registerDatabase_def newWorld_def newEvaluation_def)
  then have h4: "\<forall>e. \<not> resumable twoQueued e"
    by (simp add: resumable_def)
  have h1': "evaluationQueue (evals w0 0) = actionsItem # [secondItem]" and e0: "events w0 = []"
    by (simp_all add: w0_def twoQueued_simps)
  note ok = first_drain_returns
  from one_item_at_a_time_in_enqueue_order [of 0 secondItem w0 actionsItem "[secondItem]"] h1' h2 ok
  have q: "evaluationQueue (evals (fst (runTick twoQueued)) 0) = [secondItem]"
    and ev: "\<exists>evs c. events (fst (runTick twoQueued)) = evs @ [CallbackInvoked 7 c]"
    by (simp_all add: r e0 actionsItem_def)
  from one_item_at_a_time_in_enqueue_order [of 0 secondItem twoQueued actionsItem "[secondItem]"] h3 h4 ok
  have s: "\<forall>e. currentEvaluation (evals (fst (runTick twoQueued)) e) = None"
    and n: "\<forall>e. \<not> resumable (fst (runTick twoQueued)) e"
    by blast+
  from h1 h2 h3 h4 ok q s n ev show ?thesis by blast
qed

end
